theory Spec2Isabelle
  imports Main "HOL-Library.Word"
begin

unbundle bit_operations_syntax

section \<open>Constants of the system headers\<close>

text \<open>
  The program includes \<^verbatim>\<open><sys/inotify.h>\<close>, \<^verbatim>\<open><poll.h>\<close> and \<^verbatim>\<open><errno.h>\<close>.
  The values below are those of the Linux headers; the theorems use them only
  through their names, the closed examples through their values.
\<close>

definition IN_CLOSE_WRITE :: "32 word" where "IN_CLOSE_WRITE = 0x00000008"
definition IN_CLOSE_NOWRITE :: "32 word" where "IN_CLOSE_NOWRITE = 0x00000010"
definition IN_OPEN :: "32 word" where "IN_OPEN = 0x00000020"
definition IN_MOVED_FROM :: "32 word" where "IN_MOVED_FROM = 0x00000040"
definition IN_MOVED_TO :: "32 word" where "IN_MOVED_TO = 0x00000080"
definition IN_ISDIR :: "32 word" where "IN_ISDIR = 0x40000000"

definition POLLIN :: "16 word" where "POLLIN = 0x0001"

definition EINTR :: int where "EINTR = 4"
definition EAGAIN :: int where "EAGAIN = 11"

abbreviation NL :: char where "NL \<equiv> CHR 0x0A"
abbreviation NUL :: char where "NUL \<equiv> CHR 0x00"

section \<open>The event record and the read buffer\<close>

text \<open>
  \<^verbatim>\<open>struct inotify_event { int wd; uint32_t mask; uint32_t cookie; uint32_t len; char name[]; }\<close>:
  four 32-bit fields, 16 bytes, followed by \<open>len\<close> bytes of name. A watch descriptor
  is a C \<open>int\<close>; the program only stores it, compares it for equality and tests
  it against \<open>-1\<close>, so it is kept as the 32 bits it is made of.
\<close>

record inotify_event =
  ev_wd :: "32 word"
  ev_mask :: "32 word"
  ev_cookie :: "32 word"
  ev_len :: "32 word"

definition sizeof_inotify_event :: nat where "sizeof_inotify_event = 16"

text \<open>\<^verbatim>\<open>char buf[4096]\<close> in \<^verbatim>\<open>handle_events\<close>.\<close>

definition sizeof_buf :: nat where "sizeof_buf = 4096"

text \<open>
  The buffer is modelled by the bytes of it that have been written so far in the
  current call of \<^verbatim>\<open>handle_events\<close>: it starts empty, and a read of \<open>n\<close> bytes
  overwrites its first \<open>n\<close> bytes. A load at an offset beyond these bytes would
  read uninitialised stack or leave the array; the model gives no value there
  (\<open>None\<close>, which the loops turn into \<open>Undefined\<close>).

  A 32-bit field is loaded from four bytes in host order (little-endian).
\<close>

definition word_at :: "char list \<Rightarrow> nat \<Rightarrow> 32 word" where
  "word_at buf off = horner_sum of_char (2 ^ 8) (take 4 (drop off buf))"

text \<open>\<^verbatim>\<open>event = (const struct inotify_event *) ptr\<close> and the loads of its fields.\<close>

definition event_at :: "char list \<Rightarrow> nat \<Rightarrow> inotify_event option" where
  "event_at buf ptr =
     (if ptr + sizeof_inotify_event \<le> length buf
      then Some \<lparr>ev_wd = word_at buf ptr,
                 ev_mask = word_at buf (ptr + 4),
                 ev_cookie = word_at buf (ptr + 8),
                 ev_len = word_at buf (ptr + 12)\<rparr>
      else None)"

text \<open>
  \<^verbatim>\<open>printf("%s", event->name)\<close>: the bytes after the header up to the first NUL.
  Without a NUL in the written part of the buffer the call runs off it.
\<close>

definition event_name :: "char list \<Rightarrow> nat \<Rightarrow> string option" where
  "event_name buf ptr =
     (let s = drop (ptr + sizeof_inotify_event) buf
      in if NUL \<in> set s then Some (takeWhile (\<lambda>c. c \<noteq> NUL) s) else None)"

section \<open>Printing one event\<close>

text \<open>The five tests of \<^verbatim>\<open>event->mask\<close>, in the order of the source.\<close>

definition kind_tags :: "32 word \<Rightarrow> string" where
  "kind_tags m =
     (if m AND IN_OPEN \<noteq> 0 then ''IN_OPEN: '' else []) @
     (if m AND IN_CLOSE_NOWRITE \<noteq> 0 then ''IN_CLOSE_NOWRITE: '' else []) @
     (if m AND IN_CLOSE_WRITE \<noteq> 0 then ''IN_CLOSE_WRITE: '' else []) @
     (if m AND IN_MOVED_FROM \<noteq> 0 then ''IN_MOVED_FROM: '' else []) @
     (if m AND IN_MOVED_TO \<noteq> 0 then ''IN_MOVED_TO: '' else [])"

text \<open>
  \<^verbatim>\<open>for (i = 1; i < argc; ++i) if (wd[i] == event->wd) { printf("%s/", argv[i]); break; }\<close>
  The function returns what the loop prints, started at index \<open>i\<close>.
\<close>

function watched_dir :: "32 word list \<Rightarrow> nat \<Rightarrow> string list \<Rightarrow> 32 word \<Rightarrow> nat \<Rightarrow> string" where
  "watched_dir wd argc argv ewd i =
     (if i < argc
      then (if wd ! i = ewd then argv ! i @ ''/''
            else watched_dir wd argc argv ewd (Suc i))
      else [])"
  by pat_completeness auto
termination
  by (relation "measure (\<lambda>(wd, argc, argv, ewd, i). argc - i)") auto

definition object_kind :: "32 word \<Rightarrow> string" where
  "object_kind m =
     (if m AND IN_ISDIR \<noteq> 0 then '' [directory]'' @ [NL] else '' [file]'' @ [NL])"

text \<open>
  Everything one iteration of the event loop prints: the kind tags, the watched
  directory, the name when \<^verbatim>\<open>event->len\<close> is not zero, the kind of object.
\<close>

definition event_text ::
  "32 word list \<Rightarrow> nat \<Rightarrow> string list \<Rightarrow> char list \<Rightarrow> nat \<Rightarrow> inotify_event \<Rightarrow> string option" where
  "event_text wd argc argv buf ptr ev =
     (case (if ev_len ev \<noteq> 0 then event_name buf ptr else Some []) of
        None \<Rightarrow> None
      | Some nm \<Rightarrow>
          Some (kind_tags (ev_mask ev) @ watched_dir wd argc argv (ev_wd ev) 1 @ nm @
                object_kind (ev_mask ev)))"

section \<open>The loop over the events of one read\<close>

datatype exit_status = EXIT_SUCCESS | EXIT_FAILURE

text \<open>
  How a piece of the program can stop instead of returning: \<open>Exit\<close> is a call of
  \<^verbatim>\<open>exit\<close>; \<open>Undefined\<close> is a load outside the written buffer (or, in \<^verbatim>\<open>main\<close>,
  of \<^verbatim>\<open>argv[0]\<close> when there is none); \<open>Pending\<close> says that the replies of the
  operating system given to the model ran out while the program was still
  running.
\<close>

datatype stop = Exit exit_status | Undefined | Pending

text \<open>One iteration of the event loop: where the cursor stood, the header read there, the text printed.\<close>

record iteration =
  cursor :: nat
  event :: inotify_event
  text_of :: string

text \<open>
  \<^verbatim>\<open>for (ptr = buf; ptr < buf + len; ptr += sizeof(struct inotify_event) + event->len)\<close>
  with \<open>ptr\<close> as an offset into \<open>buf\<close>. The result lists the iterations in order
  and says whether the loop ran to its end (\<open>None\<close>).
\<close>

function events_loop ::
  "32 word list \<Rightarrow> nat \<Rightarrow> string list \<Rightarrow> char list \<Rightarrow> nat \<Rightarrow> nat \<Rightarrow> iteration list \<times> stop option" where
  "events_loop wd argc argv buf len ptr =
     (if ptr < len
      then (case event_at buf ptr of
              None \<Rightarrow> ([], Some Undefined)
            | Some ev \<Rightarrow>
                (case event_text wd argc argv buf ptr ev of
                   None \<Rightarrow> ([], Some Undefined)
                 | Some t \<Rightarrow>
                     (case events_loop wd argc argv buf len
                             (ptr + sizeof_inotify_event + unat (ev_len ev)) of
                        (its, r) \<Rightarrow> (\<lparr>cursor = ptr, event = ev, text_of = t\<rparr> # its, r))))
      else ([], None))"
  by pat_completeness auto
termination
  by (relation "measure (\<lambda>(wd, argc, argv, buf, len, ptr). len - ptr)")
     (auto simp: sizeof_inotify_event_def)

section \<open>Effects and replies of the operating system\<close>

text \<open>What the process does to the outside, in program order.\<close>

datatype effect =
    Stdout string
  | Stderr string
  | Perror string int
  | Close int
  | Free

text \<open>
  A reply to \<^verbatim>\<open>read(fd, buf, sizeof buf)\<close> on the inotify descriptor: the bytes
  delivered, or \<open>-1\<close> with a value of \<open>errno\<close>.
\<close>

datatype read_reply = RData "char list" | RFail int

text \<open>A reply to \<^verbatim>\<open>read(STDIN_FILENO, &buf, 1)\<close>: one byte, end of input (0), or \<open>-1\<close>.\<close>

datatype stdin_reply = Byte char | Eof | SFail int

text \<open>A reply to \<^verbatim>\<open>poll(fds, nfds, -1)\<close>: the return value, \<open>errno\<close>, and the two \<open>revents\<close>.\<close>

record poll_reply =
  poll_num :: int
  poll_errno :: int
  revents0 :: "16 word"
  revents1 :: "16 word"

section \<open>handle\_events\<close>

text \<open>
  The outer \<^verbatim>\<open>for (;;)\<close> of \<^verbatim>\<open>handle_events\<close>, one iteration per reply to \<open>read\<close>.
  \<open>buf\<close> is the buffer as the earlier reads of this call left it, \<open>out\<close> the
  effects so far. The result is the way the call ended (\<open>None\<close>: it returned),
  the replies left and the effects.
\<close>

fun handle_events ::
  "32 word list \<Rightarrow> nat \<Rightarrow> string list \<Rightarrow> char list \<Rightarrow> read_reply list \<Rightarrow> effect list
     \<Rightarrow> stop option \<times> read_reply list \<times> effect list" where
  "handle_events wd argc argv buf [] out = (Some Pending, [], out)"
| "handle_events wd argc argv buf (RFail errno # rs) out =
     (let len = (- 1 :: int) in
      if len = - 1 \<and> errno \<noteq> EAGAIN
      then (Some (Exit EXIT_FAILURE), rs, out @ [Perror ''read'' errno])
      else (None, rs, out))"
| "handle_events wd argc argv buf (RData d # rs) out =
     (let got = take sizeof_buf d;
          buf' = got @ drop (length got) buf;
          len = int (length got)
      in if len \<le> 0 then (None, rs, out)
         else (case events_loop wd argc argv buf' (nat len) 0 of
                 (its, Some st) \<Rightarrow> (Some st, rs, out @ map (\<lambda>it. Stdout (text_of it)) its)
               | (its, None) \<Rightarrow>
                   handle_events wd argc argv buf' rs (out @ map (\<lambda>it. Stdout (text_of it)) its)))"

section \<open>main\<close>

text \<open>The state of the running process: its effects so far and the replies not yet consumed.\<close>

record proc =
  effects :: "effect list"
  inotify_in :: "read_reply list"
  stdin_in :: "stdin_reply list"

text \<open>
  \<^verbatim>\<open>for (i = 1; i < argc; i++) { wd[i] = inotify_add_watch(...); if (wd[i] == -1) {...} }\<close>
  Each reply is the value returned and \<open>errno\<close>.
\<close>

function add_watches ::
  "nat \<Rightarrow> string list \<Rightarrow> nat \<Rightarrow> 32 word list \<Rightarrow> (32 word \<times> int) list \<Rightarrow> effect list
     \<Rightarrow> stop option \<times> 32 word list \<times> effect list" where
  "add_watches argc argv i wd rs out =
     (if i < argc
      then (case rs of
              [] \<Rightarrow> (Some Pending, wd, out)
            | (r, errno) # rs' \<Rightarrow>
                (if r = - 1
                 then (Some (Exit EXIT_FAILURE), wd[i := r],
                       out @ [Stderr (''Cannot watch '' @ [CHR 0x27] @ argv ! i @ [CHR 0x27, NL]),
                              Perror ''inotify_add_watch'' errno])
                 else add_watches argc argv (Suc i) (wd[i := r]) rs' out))
      else (None, wd, out))"
  by pat_completeness auto
termination
  by (relation "measure (\<lambda>(argc, argv, i, wd, rs, out). argc - i)") auto

text \<open>
  \<^verbatim>\<open>while (read(STDIN_FILENO, &buf, 1) > 0 && buf != '\n') continue;\<close>
  The result is the input left when the loop ends, \<open>None\<close> when the replies run out first.
\<close>

fun drain_stdin :: "stdin_reply list \<Rightarrow> stdin_reply list option" where
  "drain_stdin [] = None"
| "drain_stdin (Byte c # rs) = (if c \<noteq> NL then drain_stdin rs else Some rs)"
| "drain_stdin (Eof # rs) = Some rs"
| "drain_stdin (SFail errno # rs) = Some rs"

text \<open>
  The \<^verbatim>\<open>for(;;)\<close> around \<open>poll\<close>, one iteration per reply to \<open>poll\<close>. The result
  \<open>None\<close> is the \<^verbatim>\<open>break\<close> after console input.
\<close>

fun main_loop ::
  "int \<Rightarrow> 32 word list \<Rightarrow> nat \<Rightarrow> string list \<Rightarrow> poll_reply list \<Rightarrow> proc \<Rightarrow> stop option \<times> proc" where
  "main_loop fd wd argc argv [] s = (Some Pending, s)"
| "main_loop fd wd argc argv (p # ps) s =
     (if poll_num p = - 1
      then (if poll_errno p = EINTR
            then main_loop fd wd argc argv ps s
            else (Some (Exit EXIT_FAILURE), s\<lparr>effects := effects s @ [Perror ''poll'' (poll_errno p)]\<rparr>))
      else if poll_num p > 0
      then (if revents0 p AND POLLIN \<noteq> 0
            then (case drain_stdin (stdin_in s) of
                    None \<Rightarrow> (Some Pending, s\<lparr>stdin_in := []\<rparr>)
                  | Some rest \<Rightarrow> (None, s\<lparr>stdin_in := rest\<rparr>))
            else if revents1 p AND POLLIN \<noteq> 0
            then (case handle_events wd argc argv [] (inotify_in s) (effects s) of
                    (Some st, rs, out) \<Rightarrow> (Some st, s\<lparr>effects := out, inotify_in := rs\<rparr>)
                  | (None, rs, out) \<Rightarrow>
                      main_loop fd wd argc argv ps (s\<lparr>effects := out, inotify_in := rs\<rparr>))
            else main_loop fd wd argc argv ps s)
      else main_loop fd wd argc argv ps s)"

text \<open>The replies of the operating system for one run.\<close>

record world =
  init_reply :: "int \<times> int"
  calloc_reply :: "int option"
  watch_replies :: "(32 word \<times> int) list"
  poll_replies :: "poll_reply list"
  inotify_reads :: "read_reply list"
  stdin_reads :: "stdin_reply list"

text \<open>
  The end of \<^verbatim>\<open>main\<close>, after the loop: a call of \<^verbatim>\<open>exit\<close> inside the loop has
  ended the process already; after the \<^verbatim>\<open>break\<close> the program prints its last
  line, closes the inotify descriptor, frees the table and exits with success.
\<close>

definition after_loop :: "int \<Rightarrow> stop option \<times> proc \<Rightarrow> stop \<times> proc" where
  "after_loop fd r =
     (case r of
        (Some st, s) \<Rightarrow> (st, s)
      | (None, s) \<Rightarrow>
          (Exit EXIT_SUCCESS,
           s\<lparr>effects := effects s @
                [Stdout (''Listening for events stopped.'' @ [NL]), Close fd, Free]\<rparr>))"

text \<open>
  \<^verbatim>\<open>main\<close>, with \<open>argc = length argv\<close>. \<open>init_reply\<close> is the value of
  \<^verbatim>\<open>inotify_init1\<close> and \<open>errno\<close>; \<open>calloc_reply\<close> is \<open>Some errno\<close> when \<^verbatim>\<open>calloc\<close>
  returns NULL. With an empty \<open>argv\<close> the usage message would print \<^verbatim>\<open>argv[0]\<close>,
  a null pointer.
\<close>

definition main :: "string list \<Rightarrow> world \<Rightarrow> stop \<times> proc" where
  "main argv w =
     (let argc = length argv;
          s0 = \<lparr>effects = [], inotify_in = inotify_reads w, stdin_in = stdin_reads w\<rparr>
      in if argc < 2
         then (case argv of
                 [] \<Rightarrow> (Undefined, s0)
               | prog # _ \<Rightarrow>
                   (Exit EXIT_FAILURE,
                    s0\<lparr>effects := [Stdout (''Usage: '' @ prog @ '' PATH [PATH ...]'' @ [NL])]\<rparr>))
         else
           (let out1 = [Stdout (''Press ENTER key to exit.'' @ [NL])];
                fd = fst (init_reply w)
            in if fd = - 1
               then (Exit EXIT_FAILURE,
                     s0\<lparr>effects := out1 @ [Perror ''inotify_init1'' (snd (init_reply w))]\<rparr>)
               else
                 (case calloc_reply w of
                    Some errno \<Rightarrow> (Exit EXIT_FAILURE, s0\<lparr>effects := out1 @ [Perror ''calloc'' errno]\<rparr>)
                  | None \<Rightarrow>
                      (case add_watches argc argv 1 (replicate argc 0) (watch_replies w) out1 of
                         (Some st, wd, out2) \<Rightarrow> (st, s0\<lparr>effects := out2\<rparr>)
                       | (None, wd, out2) \<Rightarrow>
                           after_loop fd
                             (main_loop fd wd argc argv (poll_replies w)
                                (s0\<lparr>effects := out2 @ [Stdout (''Listening for events.'' @ [NL])]\<rparr>))))))"

section \<open>Notions used to state the properties\<close>


text \<open>The name an iteration prints: nothing when \<^verbatim>\<open>event->len\<close> is zero.\<close>

definition name_text :: "char list \<Rightarrow> nat \<Rightarrow> inotify_event \<Rightarrow> string" where
  "name_text buf ptr ev =
     (if ev_len ev = 0 then []
      else takeWhile (\<lambda>c. c \<noteq> NUL) (drop (ptr + sizeof_inotify_event) buf))"

subsection \<open>Well-formed buffers\<close>

text \<open>The four bytes of a 32-bit field, least significant first: the inverse of \<open>word_at\<close>.\<close>

definition put_word :: "32 word \<Rightarrow> char list" where
  "put_word w = map (\<lambda>k. char_of (unat (drop_bit k w))) [0, 8, 16, 24]"

text \<open>A record as it lies in the buffer: the header of 16 bytes, then the bytes of the name.\<close>

definition encode_event :: "inotify_event \<Rightarrow> char list \<Rightarrow> char list" where
  "encode_event ev nm =
     put_word (ev_wd ev) @ put_word (ev_mask ev) @ put_word (ev_cookie ev) @ put_word (ev_len ev) @ nm"

text \<open>
  A record is well formed when its name has \<open>len\<close> bytes and, unless it is empty,
  holds a NUL (the kernel pads every name with at least one).
\<close>

definition well_formed :: "inotify_event \<times> char list \<Rightarrow> bool" where
  "well_formed r = (length (snd r) = unat (ev_len (fst r)) \<and> (ev_len (fst r) \<noteq> 0 \<longrightarrow> NUL \<in> set (snd r)))"

text \<open>Records packed one after the other, without gaps.\<close>

definition encode_events :: "(inotify_event \<times> char list) list \<Rightarrow> char list" where
  "encode_events recs = concat (map (\<lambda>r. encode_event (fst r) (snd r)) recs)"

text \<open>\<^verbatim>\<open>sizeof(struct inotify_event) + event->len\<close>, the step of the cursor.\<close>

definition advance :: "inotify_event \<Rightarrow> nat" where
  "advance ev = sizeof_inotify_event + unat (ev_len ev)"

subsection \<open>A concrete run\<close>

text \<open>
  Two spellings of one directory (the kernel returns the same watch descriptor
  for both) and a second directory; a buffer of two records: \<open>x.txt\<close> opened and
  moved away under descriptor 1, and a directory \<open>d\<close> under a descriptor that
  is not in the table, with none of the five tracked bits.
\<close>

definition ex_argv :: "string list" where
  "ex_argv = [''ino'', ''/tmp'', ''/tmp/'', ''/var'']"

definition ex_wd :: "32 word list" where
  "ex_wd = [0, 1, 1, 2]"

definition ex_buf :: "char list" where
  "ex_buf =
     [CHR 0x01, NUL, NUL, NUL,  CHR 0x60, NUL, NUL, NUL,  NUL, NUL, NUL, NUL,  CHR 0x08, NUL, NUL, NUL,
      CHR ''x'', CHR ''.'', CHR ''t'', CHR ''x'', CHR ''t'', NUL, NUL, NUL,
      CHR 0x07, NUL, NUL, NUL,  NUL, NUL, NUL, CHR 0x40,  NUL, NUL, NUL, NUL,  CHR 0x04, NUL, NUL, NUL,
      CHR ''d'', NUL, NUL, NUL]"


text \<open>The two records of \<open>ex_buf\<close>.\<close>

definition ex_recs :: "(inotify_event \<times> char list) list" where
  "ex_recs =
     [(\<lparr>ev_wd = 1, ev_mask = 0x60, ev_cookie = 0, ev_len = 8\<rparr>, ''x.txt'' @ [NUL, NUL, NUL]),
      (\<lparr>ev_wd = 7, ev_mask = 0x40000000, ev_cookie = 0, ev_len = 4\<rparr>, ''d'' @ [NUL, NUL, NUL])]"

subsection \<open>Runs of the whole program\<close>

text \<open>The line \<^verbatim>\<open>fprintf(stderr, "Cannot watch '%s'\n", argv[i])\<close> writes.\<close>

definition cannot_watch :: "string \<Rightarrow> effect" where
  "cannot_watch path = Stderr (''Cannot watch '' @ [CHR 0x27] @ path @ [CHR 0x27, NL])"

text \<open>
  The start of the program succeeds: there is a path, \<^verbatim>\<open>inotify_init1\<close> and
  \<^verbatim>\<open>calloc\<close> succeed, and every path is registered.
\<close>

definition startup_ok :: "string list \<Rightarrow> world \<Rightarrow> bool" where
  "startup_ok argv w =
     (2 \<le> length argv \<and> fst (init_reply w) \<noteq> - 1 \<and> calloc_reply w = None \<and>
      length argv - 1 \<le> length (watch_replies w) \<and>
      (\<forall>r \<in> set (take (length argv - 1) (watch_replies w)). fst r \<noteq> - 1))"

text \<open>The table \<open>wd\<close> after a successful start: entry 0 is unused (zero).\<close>

definition watch_table :: "string list \<Rightarrow> world \<Rightarrow> 32 word list" where
  "watch_table argv w = 0 # map fst (take (length argv - 1) (watch_replies w))"

text \<open>The three fixed lines of \<^verbatim>\<open>main\<close>.\<close>

definition press_enter :: effect where
  "press_enter = Stdout (''Press ENTER key to exit.'' @ [NL])"

definition listening :: effect where
  "listening = Stdout (''Listening for events.'' @ [NL])"

definition stopped :: effect where
  "stopped = Stdout (''Listening for events stopped.'' @ [NL])"

text \<open>The state of the process when it enters the loop around \<open>poll\<close>.\<close>

definition started :: "world \<Rightarrow> proc" where
  "started w = \<lparr>effects = [press_enter, listening], inotify_in = inotify_reads w, stdin_in = stdin_reads w\<rparr>"

text \<open>The replies that end the loop emptying the console: a line break, end of input, an error.\<close>

fun ends_input :: "stdin_reply \<Rightarrow> bool" where
  "ends_input (Byte c) = (c = NL)"
| "ends_input Eof = True"
| "ends_input (SFail errno) = True"

text \<open>
  Replies for a run with \<open>ex_argv\<close>: the descriptor 3, and the watch descriptors of
  \<open>ex_wd\<close>. The three replies to \<open>poll\<close>: interrupted by a signal (EINTR is 4),
  failed for lack of memory (ENOMEM is 12), both descriptors readable.
\<close>

definition ex_world :: world where
  "ex_world =
     \<lparr>init_reply = (3, 0), calloc_reply = None,
      watch_replies = [(1, 0), (1, 0), (2, 0)],
      poll_replies = [], inotify_reads = [], stdin_reads = []\<rparr>"

definition ex_interrupted :: poll_reply where
  "ex_interrupted = \<lparr>poll_num = - 1, poll_errno = 4, revents0 = 0, revents1 = 0\<rparr>"

definition ex_poll_failed :: poll_reply where
  "ex_poll_failed = \<lparr>poll_num = - 1, poll_errno = 12, revents0 = 0, revents1 = 0\<rparr>"

definition ex_both_ready :: poll_reply where
  "ex_both_ready = \<lparr>poll_num = 2, poll_errno = 0, revents0 = 1, revents1 = 1\<rparr>"

text \<open>The two effects that release a resource: \<^verbatim>\<open>close(fd)\<close> and \<^verbatim>\<open>free(wd)\<close>.\<close>

fun is_cleanup :: "effect \<Rightarrow> bool" where
  "is_cleanup (Close fd) = True"
| "is_cleanup Free = True"
| "is_cleanup (Stdout t) = False"
| "is_cleanup (Stderr t) = False"
| "is_cleanup (Perror t errno) = False"

text \<open>
  A run in which the second path cannot be watched (ENOENT is 2) while the other
  two can, with events waiting on the inotify descriptor.
\<close>

definition ex_fail_world :: world where
  "ex_fail_world =
     ex_world\<lparr>watch_replies := [(1, 0), (- 1, 2), (2, 0)],
              poll_replies := [ex_both_ready],
              inotify_reads := [RData ex_buf, RFail EAGAIN]\<rparr>"

text \<open>
  A run in which the first \<open>poll\<close> finds both descriptors readable and the console
  holds \<open>q\<close>, a line break and \<open>z\<close>.
\<close>

definition ex_clean_world :: world where
  "ex_clean_world =
     ex_world\<lparr>poll_replies := [ex_both_ready],
              inotify_reads := [RData ex_buf, RFail EAGAIN],
              stdin_reads := [Byte CHR ''q'', Byte NL, Byte CHR ''z'']\<rparr>"

text \<open>The name the program prints for a record with the name bytes \<open>nm\<close>.\<close>

definition record_name :: "inotify_event \<times> char list \<Rightarrow> string" where
  "record_name r =
     (if ev_len (fst r) = 0 then [] else takeWhile (\<lambda>c. c \<noteq> NUL) (snd r))"

text \<open>
  A well-formed record under descriptor 1 with none of the tracked bits, whose
  name \<open>a\<close>, line break, \<open>b\<close> holds a line break (a legal file name).
\<close>

definition ex_nl_rec :: "inotify_event \<times> char list" where
  "ex_nl_rec =
     (\<lparr>ev_wd = 1, ev_mask = 0, ev_cookie = 0, ev_len = 4\<rparr>, [CHR ''a'', NL, CHR ''b'', NUL])"

section \<open>Properties of the lookup and of the event loop\<close>

declare watched_dir.simps [simp del] events_loop.simps [simp del] add_watches.simps [simp del]

lemmas mask_defs = IN_OPEN_def IN_CLOSE_NOWRITE_def IN_CLOSE_WRITE_def IN_MOVED_FROM_def
  IN_MOVED_TO_def IN_ISDIR_def


lemma watched_dir_first:
  "i \<le> k \<Longrightarrow> k < argc \<Longrightarrow> wd ! k = ewd \<Longrightarrow> (\<And>j. i \<le> j \<Longrightarrow> j < k \<Longrightarrow> wd ! j \<noteq> ewd)
     \<Longrightarrow> watched_dir wd argc argv ewd i = argv ! k @ ''/''"
proof (induction wd argc argv ewd i rule: watched_dir.induct)
  case (1 wd argc argv ewd i)
  from "1.prems" have lt: "i < argc" by simp
  show ?case
  proof (cases "wd ! i = ewd")
    case True
    with "1.prems"(4) [of i] "1.prems"(1) have "i = k" by (cases "i < k") auto
    with True lt show ?thesis by (subst watched_dir.simps) simp
  next
    case False
    with "1.prems" have "i \<noteq> k" by auto
    with "1.prems" have "Suc i \<le> k" by simp
    then have "watched_dir wd argc argv ewd (Suc i) = argv ! k @ ''/''"
      using lt False "1.prems" by (intro "1.IH") auto
    with False lt show ?thesis by (subst watched_dir.simps) simp
  qed
qed



lemma events_loop_unfold:
  "ptr < len \<Longrightarrow> event_at buf ptr = Some ev \<Longrightarrow> event_text wd argc argv buf ptr ev = Some t \<Longrightarrow>
   events_loop wd argc argv buf len ptr =
     (\<lparr>cursor = ptr, event = ev, text_of = t\<rparr> #
        fst (events_loop wd argc argv buf len (ptr + sizeof_inotify_event + unat (ev_len ev))),
      snd (events_loop wd argc argv buf len (ptr + sizeof_inotify_event + unat (ev_len ev))))"
  by (subst events_loop.simps) (simp split: prod.splits)

lemma events_loop_done: "\<not> ptr < len \<Longrightarrow> events_loop wd argc argv buf len ptr = ([], None)"
  by (subst events_loop.simps) simp


subsection \<open>The concrete run, evaluated\<close>



lemma ex_dir_1: "watched_dir ex_wd 4 ex_argv 1 (Suc 0) = ''/tmp/''"
  by code_simp

lemma ex_dir_7: "watched_dir ex_wd 4 ex_argv 7 (Suc 0) = []"
  by code_simp





subsection \<open>The kind tags\<close>



subsection \<open>Events of a watch descriptor that is not in the table\<close>



subsection \<open>Decoding a buffer of well-formed records\<close>

lemma nat_bytes: "n < 2 ^ 32 \<Longrightarrow>
   n mod 256 + 256 * ((n div 2 ^ 8) mod 256 + 256 * ((n div 2 ^ 16) mod 256 + 256 * ((n div 2 ^ 24) mod 256))) = (n::nat)"
proof -
  assume "n < 2 ^ 32"
  have a: "n = n mod 256 + 256 * (n div 256)" by simp
  have b: "n div 256 = (n div 256) mod 256 + 256 * (n div 256 div 256)" by simp
  have c: "n div 256 div 256 = (n div 256 div 256) mod 256 + 256 * (n div 256 div 256 div 256)" by simp
  have d: "n div 256 div 256 div 256 < 256" using \<open>n < 2 ^ 32\<close> by (simp add: div_mult2_eq [symmetric] less_mult_imp_div_less)
  show ?thesis
    using a b c d by (simp add: div_mult2_eq [symmetric])
qed

lemma of_char_char_of_nat: "(of_char (char_of (n::nat)) :: 32 word) = of_nat (n mod 256)"
proof -
  have "(of_char (char_of n) :: 32 word) = of_nat (of_char (char_of n))"
    by (simp only: of_nat_of_char)
  then show ?thesis by (simp only: of_char_of)
qed

lemma horner_put_word: "horner_sum of_char (2 ^ 8) (put_word w) = w"
proof -
  have "horner_sum of_char (2 ^ 8) (put_word w) = (of_nat (unat w mod 256 + 256 * ((unat w div 2 ^ 8) mod 256 + 256 * ((unat w div 2 ^ 16) mod 256 + 256 * ((unat w div 2 ^ 24) mod 256)))) :: 32 word)"
    by (simp add: put_word_def of_char_char_of_nat unat_drop_bit_eq drop_bit_eq_div unat_div)
  also have "\<dots> = of_nat (unat w)"
    using nat_bytes [of "unat w"] unsigned_less [of w, where 'a = nat] by simp
  finally show ?thesis by simp
qed

lemma length_put_word [simp]: "length (put_word w) = 4" by (simp add: put_word_def)

lemma word_at_put_word: "length pre = off \<Longrightarrow> word_at (pre @ put_word w @ rest) off = w"
  using horner_put_word [of w] by (simp add: word_at_def)

lemma length_encode_event: "length (encode_event ev nm) = sizeof_inotify_event + length nm"
  by (simp add: encode_event_def sizeof_inotify_event_def)

lemma event_at_encode:
  "event_at (pre @ encode_event ev nm @ rest) (length pre) = Some ev"
proof -
  let ?buf = "pre @ encode_event ev nm @ rest"
  have 0: "word_at ?buf (length pre) = ev_wd ev"
    unfolding encode_event_def by (simp add: word_at_put_word)
  have 4: "word_at ?buf (length pre + 4) = ev_mask ev"
    using word_at_put_word [of "pre @ put_word (ev_wd ev)" "length pre + 4" "ev_mask ev"]
    by (simp add: encode_event_def)
  have 8: "word_at ?buf (length pre + 8) = ev_cookie ev"
    using word_at_put_word [of "pre @ put_word (ev_wd ev) @ put_word (ev_mask ev)" "length pre + 8" "ev_cookie ev"]
    by (simp add: encode_event_def)
  have 12: "word_at ?buf (length pre + 12) = ev_len ev"
    using word_at_put_word [of "pre @ put_word (ev_wd ev) @ put_word (ev_mask ev) @ put_word (ev_cookie ev)"
       "length pre + 12" "ev_len ev"]
    by (simp add: encode_event_def)
  show ?thesis
    by (simp add: event_at_def 0 4 8 12 length_encode_event)
qed

lemma drop_header:
  "drop (length pre + sizeof_inotify_event) (pre @ encode_event ev nm @ rest) = nm @ rest"
  by (simp add: encode_event_def sizeof_inotify_event_def)

lemma name_text_encode:
  assumes "well_formed (ev, nm)"
  shows "name_text (pre @ encode_event ev nm @ rest) (length pre) ev =
     (if ev_len ev = 0 then [] else takeWhile (\<lambda>c. c \<noteq> NUL) nm)"
proof (cases "ev_len ev = 0")
  case True
  then show ?thesis by (simp add: name_text_def)
next
  case False
  with assms have "NUL \<in> set nm" by (simp add: well_formed_def)
  then have "takeWhile (\<lambda>c. c \<noteq> NUL) (nm @ rest) = takeWhile (\<lambda>c. c \<noteq> NUL) nm"
    by (intro takeWhile_append1 [of NUL]) simp_all
  with False show ?thesis
    by (simp only: name_text_def drop_header if_False)
qed

lemma event_text_encode:
  assumes "well_formed (ev, nm)"
  shows "event_text wd argc argv (pre @ encode_event ev nm @ rest) (length pre) ev =
     Some (kind_tags (ev_mask ev) @ watched_dir wd argc argv (ev_wd ev) 1 @
           (if ev_len ev = 0 then [] else takeWhile (\<lambda>c. c \<noteq> NUL) nm) @ object_kind (ev_mask ev))"
proof (cases "ev_len ev = 0")
  case True
  then show ?thesis by (simp add: event_text_def)
next
  case False
  with assms have nul: "NUL \<in> set nm" by (simp add: well_formed_def)
  then have "takeWhile (\<lambda>c. c \<noteq> NUL) (nm @ rest) = takeWhile (\<lambda>c. c \<noteq> NUL) nm"
    by (intro takeWhile_append1 [of NUL]) simp_all
  moreover have "event_name (pre @ encode_event ev nm @ rest) (length pre) =
      Some (takeWhile (\<lambda>c. c \<noteq> NUL) (nm @ rest))"
    using nul by (simp only: event_name_def drop_header Let_def) simp
  ultimately show ?thesis using False
    by (simp add: event_text_def)
qed

lemma encode_events_Cons:
  "encode_events ((ev, nm) # rs) = encode_event ev nm @ encode_events rs"
  by (simp add: encode_events_def)

lemma events_loop_encode:
  assumes "\<forall>r \<in> set recs. well_formed r"
  shows "\<exists>its. events_loop wd argc argv (pre @ encode_events recs @ stale)
                 (length pre + length (encode_events recs)) (length pre) = (its, None) \<and>
               map event its = map fst recs \<and>
               (\<forall>k. k < length its \<longrightarrow>
                  cursor (its ! k) = length pre + sum_list (map advance (take k (map fst recs))))"
  using assms
proof (induction recs arbitrary: pre)
  case Nil
  then show ?case by (simp add: encode_events_def events_loop_done)
next
  case (Cons r rs)
  obtain ev nm where r: "r = (ev, nm)" by (cases r)
  from Cons.prems r have wf: "well_formed (ev, nm)" and wfs: "\<forall>r \<in> set rs. well_formed r"
    by simp_all
  let ?pre' = "pre @ encode_event ev nm"
  let ?buf = "pre @ encode_events (r # rs) @ stale"
  let ?len = "length pre + length (encode_events (r # rs))"
  have buf: "?buf = pre @ encode_event ev nm @ (encode_events rs @ stale)"
    by (simp add: r encode_events_Cons)
  have buf': "?buf = ?pre' @ encode_events rs @ stale"
    by (simp add: r encode_events_Cons)
  have len': "?len = length ?pre' + length (encode_events rs)"
    by (simp add: r encode_events_Cons)
  have "length nm = unat (ev_len ev)"
    using wf by (simp add: well_formed_def)
  then have next_ptr: "length pre + sizeof_inotify_event + unat (ev_len ev) = length ?pre'"
    by (simp add: length_encode_event)
  have lt: "length pre < ?len"
    by (simp add: r encode_events_Cons length_encode_event sizeof_inotify_event_def)
  have ev: "event_at ?buf (length pre) = Some ev"
    unfolding buf by (rule event_at_encode)
  obtain t where t: "event_text wd argc argv ?buf (length pre) ev = Some t"
    unfolding buf using event_text_encode [OF wf] by blast
  from Cons.IH [OF wfs, of ?pre'] obtain its' where
    loop': "events_loop wd argc argv (?pre' @ encode_events rs @ stale)
              (length ?pre' + length (encode_events rs)) (length ?pre') = (its', None)" and
    evs': "map event its' = map fst rs" and
    cur': "\<And>k. k < length its' \<Longrightarrow>
             cursor (its' ! k) = length ?pre' + sum_list (map advance (take k (map fst rs)))"
    by blast
  let ?it = "\<lparr>cursor = length pre, event = ev, text_of = t\<rparr>"
  have rest: "events_loop wd argc argv ?buf ?len (length ?pre') = (its', None)"
    using loop' by (simp only: buf' len')
  have loop: "events_loop wd argc argv ?buf ?len (length pre) = (?it # its', None)"
    by (simp only: events_loop_unfold [OF lt ev t] next_ptr rest fst_conv snd_conv)
  have evs: "map event (?it # its') = map fst (r # rs)"
    using evs' by (simp add: r)
  have cur: "cursor ((?it # its') ! k) = length pre + sum_list (map advance (take k (map fst (r # rs))))"
    if "k < length (?it # its')" for k
  proof (cases k)
    case 0
    then show ?thesis by simp
  next
    case (Suc j)
    with that have "j < length its'" by simp
    from cur' [OF this] Suc show ?thesis
      using next_ptr by (simp add: r advance_def)
  qed
  from loop evs cur show ?case by blast
qed

text \<open>
  Claim C1. On a buffer that starts with N well-formed records packed one after
  the other, with the length of these records as its valid length, the event
  loop runs to its end in exactly N iterations and reads the N headers in
  order. The cursor of each iteration is the sum of the advances of the
  iterations before it, an advance being the size of the header plus the
  \<open>len\<close> of the record, and all advances add up to the valid length.
\<close>

theorem decode_well_formed_records:
  assumes "\<forall>r \<in> set recs. well_formed r"
  shows "\<exists>its. events_loop wd argc argv (encode_events recs @ stale)
                 (length (encode_events recs)) 0 = (its, None) \<and>
               length its = length recs \<and> map event its = map fst recs \<and>
               (\<forall>k. k < length its \<longrightarrow>
                  cursor (its ! k) = sum_list (map (\<lambda>it. advance (event it)) (take k its))) \<and>
               sum_list (map (\<lambda>it. advance (event it)) its) = length (encode_events recs)"
proof -
  from events_loop_encode [OF assms, of wd argc argv "[]" stale] obtain its where
    loop: "events_loop wd argc argv (encode_events recs @ stale) (length (encode_events recs)) 0
             = (its, None)" and
    evs: "map event its = map fst recs" and
    cur: "\<And>k. k < length its \<Longrightarrow> cursor (its ! k) = sum_list (map advance (take k (map fst recs)))"
    by auto
  have "length (map event its) = length (map fst recs)"
    by (simp only: evs)
  then have len: "length its = length recs" by simp
  have "map (\<lambda>it. advance (event it)) its = map advance (map event its)"
    by simp
  then have adv: "map (\<lambda>it. advance (event it)) its = map advance (map fst recs)"
    by (simp only: evs)
  have cur': "cursor (its ! k) = sum_list (map (\<lambda>it. advance (event it)) (take k its))"
    if "k < length its" for k
  proof -
    have "map (\<lambda>it. advance (event it)) (take k its) = take k (map (\<lambda>it. advance (event it)) its)"
      by (simp only: take_map)
    also have "\<dots> = map advance (take k (map fst recs))"
      by (simp only: adv take_map)
    finally show ?thesis using cur [OF that] by simp
  qed
  have total: "sum_list (map advance (map fst rs)) = length (encode_events rs)"
    if "\<forall>r \<in> set rs. well_formed r" for rs
    using that
    by (induction rs) (auto simp: encode_events_def advance_def length_encode_event well_formed_def)
  have "sum_list (map (\<lambda>it. advance (event it)) its) = length (encode_events recs)"
    using total [OF assms] by (simp only: adv)
  with loop len evs cur' show ?thesis by blast
qed

lemma put_word_values:
  "put_word 0 = [NUL, NUL, NUL, NUL]" "put_word 1 = [CHR 0x01, NUL, NUL, NUL]"
  "put_word 4 = [CHR 0x04, NUL, NUL, NUL]" "put_word 7 = [CHR 0x07, NUL, NUL, NUL]"
  "put_word 8 = [CHR 0x08, NUL, NUL, NUL]" "put_word 0x60 = [CHR 0x60, NUL, NUL, NUL]"
  "put_word 0x40000000 = [NUL, NUL, NUL, CHR 0x40]"
  by (simp_all add: put_word_def char_of_def drop_bit_eq_div bit_iff_odd)

lemma ex_recs_encode: "encode_events ex_recs = ex_buf"
  by (simp add: encode_events_def ex_recs_def encode_event_def put_word_values ex_buf_def)

theorem decode_well_formed_records_witness:
  "well_formed (ex_recs ! 0) \<and> well_formed (ex_recs ! 1) \<and> set ex_recs = {ex_recs ! 0, ex_recs ! 1} \<and>
   encode_events ex_recs = ex_buf \<and> length ex_buf = 44 \<and>
   (\<exists>its. events_loop ex_wd 4 ex_argv (encode_events ex_recs @ [])
                 (length (encode_events ex_recs)) 0 = (its, None) \<and>
               length its = 2 \<and> map event its = map fst ex_recs \<and>
               (\<forall>k. k < length its \<longrightarrow>
                  cursor (its ! k) = sum_list (map (\<lambda>it. advance (event it)) (take k its))) \<and>
               sum_list (map (\<lambda>it. advance (event it)) its) = 44)"
proof -
  have wf: "well_formed (ex_recs ! 0) \<and> well_formed (ex_recs ! 1)"
    by (simp add: ex_recs_def well_formed_def)
  have set: "set ex_recs = {ex_recs ! 0, ex_recs ! 1}"
    by (simp add: ex_recs_def)
  with wf have all: "\<forall>r \<in> set ex_recs. well_formed r" by simp
  have len: "length ex_buf = 44" by (simp add: ex_buf_def)
  have n: "length ex_recs = 2" by (simp add: ex_recs_def)
  from decode_well_formed_records [OF all, of ex_wd 4 ex_argv "[]"] wf set ex_recs_encode len n
  show ?thesis by simp
qed

section \<open>Properties of handle\_events\<close>

lemma encode_events_nonempty:
  "recs \<noteq> [] \<Longrightarrow> 0 < length (encode_events recs)"
  by (cases recs) (simp_all add: encode_events_def length_encode_event sizeof_inotify_event_def)

lemma handle_events_data:
  assumes "recs \<noteq> []" and "\<forall>r \<in> set recs. well_formed r"
    and "length (encode_events recs) \<le> sizeof_buf"
  shows "\<exists>its :: iteration list. length its = length recs \<and>
           handle_events wd argc argv buf (RData (encode_events recs) # rs) out =
           handle_events wd argc argv (encode_events recs @ drop (length (encode_events recs)) buf) rs
             (out @ map (\<lambda>it. Stdout (text_of it)) its)"
proof -
  let ?d = "encode_events recs"
  let ?buf' = "?d @ drop (length ?d) buf"
  from events_loop_encode [OF assms(2), of wd argc argv "[]" "drop (length ?d) buf"]
  obtain its where loop: "events_loop wd argc argv ?buf' (length ?d) 0 = (its, None)"
    and evs: "map event its = map fst recs"
    by auto
  have "length (map event its) = length (map fst recs)" by (simp only: evs)
  then have len: "length its = length recs" by simp
  have eq: "handle_events wd argc argv buf (RData ?d # rs) out =
        handle_events wd argc argv ?buf' rs (out @ map (\<lambda>it. Stdout (text_of it)) its)"
    using assms(3) encode_events_nonempty [OF assms(1)] loop by (simp add: Let_def)
  show ?thesis by (rule exI [of _ its]) (simp only: len eq simp_thms)
qed

text \<open>
  Claim C7. A call of \<^verbatim>\<open>handle_events\<close> that is given any number of reads with
  data (here: non-empty batches of well-formed records that fit the buffer)
  processes every one of them and goes on reading until a read delivers
  nothing: on \<open>-1\<close> with EAGAIN, or on a read of 0 bytes, it returns, with
  one text printed for each record. When instead a read fails with any other
  \<open>errno\<close> (EINTR included), the call prints the error with \<^verbatim>\<open>perror("read")\<close>
  and exits with EXIT_FAILURE.
\<close>

theorem drain_until_empty:
  assumes "\<forall>recs \<in> set batches.
             recs \<noteq> [] \<and> (\<forall>r \<in> set recs. well_formed r) \<and> length (encode_events recs) \<le> sizeof_buf"
  shows "(\<exists>lines. length lines = length (concat batches) \<and>
            handle_events wd argc argv buf
              (map (\<lambda>recs. RData (encode_events recs)) batches @ RFail EAGAIN # rest) out =
            (None, rest, out @ map Stdout lines)) \<and>
         (\<exists>lines. length lines = length (concat batches) \<and>
            handle_events wd argc argv buf
              (map (\<lambda>recs. RData (encode_events recs)) batches @ RData [] # rest) out =
            (None, rest, out @ map Stdout lines)) \<and>
         (errno \<noteq> EAGAIN \<longrightarrow>
           (\<exists>lines. length lines = length (concat batches) \<and>
              handle_events wd argc argv buf
                (map (\<lambda>recs. RData (encode_events recs)) batches @ RFail errno # rest) out =
              (Some (Exit EXIT_FAILURE), rest, out @ map Stdout lines @ [Perror ''read'' errno])))"
  using assms
proof (induction batches arbitrary: buf out)
  case Nil
  have "\<exists>lines::string list. length lines = 0 \<and> out = out @ map Stdout lines" by simp
  then show ?case by (simp add: Let_def)
next
  case (Cons recs batches)
  from Cons.prems have this_ok: "recs \<noteq> []" "\<forall>r \<in> set recs. well_formed r"
      "length (encode_events recs) \<le> sizeof_buf"
    and others: "\<forall>recs \<in> set batches.
             recs \<noteq> [] \<and> (\<forall>r \<in> set recs. well_formed r) \<and> length (encode_events recs) \<le> sizeof_buf"
    by simp_all
  let ?more = "\<lambda>last. map (\<lambda>recs. RData (encode_events recs)) batches @ last # rest"
  have step: "\<exists>lines. length lines = length (concat (recs # batches)) \<and>
            handle_events wd argc argv buf (RData (encode_events recs) # ?more last) out =
            (st, rest, out @ map Stdout lines @ tail)"
    if later: "\<And>buf' out'. \<exists>lines. length lines = length (concat batches) \<and>
            handle_events wd argc argv buf' (?more last) out' = (st, rest, out' @ map Stdout lines @ tail)"
    for last st tail
  proof -
    define buf' where "buf' = encode_events recs @ drop (length (encode_events recs)) buf"
    from handle_events_data [OF this_ok, of wd argc argv buf "?more last" out]
    obtain its :: "iteration list" where n: "length its = length recs" and
      eq: "handle_events wd argc argv buf (RData (encode_events recs) # ?more last) out =
           handle_events wd argc argv buf' (?more last) (out @ map (\<lambda>it. Stdout (text_of it)) its)"
      unfolding buf'_def by blast
    from later [of buf' "out @ map (\<lambda>it. Stdout (text_of it)) its"]
    obtain lines where m: "length lines = length (concat batches)" and
      eq': "handle_events wd argc argv buf' (?more last) (out @ map (\<lambda>it. Stdout (text_of it)) its) =
            (st, rest, (out @ map (\<lambda>it. Stdout (text_of it)) its) @ map Stdout lines @ tail)"
      by blast
    have a: "length (map text_of its @ lines) = length (concat (recs # batches))"
      using n m by simp
    have b: "handle_events wd argc argv buf (RData (encode_events recs) # ?more last) out =
        (st, rest, out @ map Stdout (map text_of its @ lines) @ tail)"
      using eq eq' by (simp add: comp_def)
    show ?thesis by (rule exI [of _ "map text_of its @ lines"]) (simp only: a b simp_thms)
  qed
  from Cons.IH [OF others] have
    1: "\<And>buf' out'. \<exists>lines. length lines = length (concat batches) \<and>
            handle_events wd argc argv buf' (?more (RFail EAGAIN)) out' = (None, rest, out' @ map Stdout lines @ [])" and
    2: "\<And>buf' out'. \<exists>lines. length lines = length (concat batches) \<and>
            handle_events wd argc argv buf' (?more (RData [])) out' = (None, rest, out' @ map Stdout lines @ [])" and
    3: "\<And>buf' out'. errno \<noteq> EAGAIN \<Longrightarrow> \<exists>lines. length lines = length (concat batches) \<and>
            handle_events wd argc argv buf' (?more (RFail errno)) out' =
              (Some (Exit EXIT_FAILURE), rest, out' @ map Stdout lines @ [Perror ''read'' errno])"
    by simp_all
  from step [of "RFail EAGAIN" None "[]", OF 1] step [of "RData []" None "[]", OF 2]
    step [of "RFail errno" "Some (Exit EXIT_FAILURE)" "[Perror ''read'' errno]", OF 3]
  show ?case by simp
qed

theorem drain_until_empty_witness:
  "ex_recs \<noteq> [] \<and> well_formed (ex_recs ! 0) \<and> well_formed (ex_recs ! 1) \<and>
   length (encode_events ex_recs) \<le> sizeof_buf \<and> EINTR \<noteq> EAGAIN \<and>
   (\<exists>lines. length lines = 2 \<and>
      handle_events ex_wd 4 ex_argv [] [RData (encode_events ex_recs), RFail EAGAIN] [] =
        (None, [], map Stdout lines)) \<and>
   (\<exists>lines. length lines = 2 \<and>
      handle_events ex_wd 4 ex_argv [] [RData (encode_events ex_recs), RFail EINTR] [] =
        (Some (Exit EXIT_FAILURE), [], map Stdout lines @ [Perror ''read'' EINTR]))"
proof -
  have wf: "well_formed (ex_recs ! 0) \<and> well_formed (ex_recs ! 1)"
    by (simp add: ex_recs_def well_formed_def)
  have set: "set ex_recs = {ex_recs ! 0, ex_recs ! 1}" and ne: "ex_recs \<noteq> []"
    and n: "length ex_recs = 2"
    by (simp_all add: ex_recs_def)
  have fits: "length (encode_events ex_recs) \<le> sizeof_buf"
    by (simp add: ex_recs_encode ex_buf_def sizeof_buf_def)
  have errno: "EINTR \<noteq> EAGAIN"
    by (simp add: EINTR_def EAGAIN_def)
  have all: "\<forall>recs \<in> set [ex_recs].
      recs \<noteq> [] \<and> (\<forall>r \<in> set recs. well_formed r) \<and> length (encode_events recs) \<le> sizeof_buf"
    using wf set ne fits by simp
  from drain_until_empty [OF all, of ex_wd 4 ex_argv "[]" "[]" "[]" EINTR] errno n
  have "(\<exists>lines. length lines = 2 \<and>
      handle_events ex_wd 4 ex_argv [] [RData (encode_events ex_recs), RFail EAGAIN] [] =
        (None, [], map Stdout lines)) \<and>
   (\<exists>lines. length lines = 2 \<and>
      handle_events ex_wd 4 ex_argv [] [RData (encode_events ex_recs), RFail EINTR] [] =
        (Some (Exit EXIT_FAILURE), [], map Stdout lines @ [Perror ''read'' EINTR]))"
    by simp
  with wf ne fits errno show ?thesis by blast
qed

section \<open>Properties of main\<close>

lemma add_watches_ok:
  "i \<le> argc \<Longrightarrow> length wd = argc \<Longrightarrow> argc - i \<le> length rs \<Longrightarrow>
   \<forall>r \<in> set (take (argc - i) rs). fst r \<noteq> - 1 \<Longrightarrow>
   add_watches argc argv i wd rs out = (None, take i wd @ map fst (take (argc - i) rs), out)"
proof (induction argc argv i wd rs out rule: add_watches.induct)
  case (1 argc argv i wd rs out)
  show ?case
  proof (cases "i < argc")
    case False
    with "1.prems" show ?thesis by (subst add_watches.simps) simp
  next
    case True
    with "1.prems" obtain r errno rs' where rs: "rs = (r, errno) # rs'"
      by (cases rs) auto
    from True have split: "argc - i = Suc (argc - Suc i)" by simp
    from "1.prems" rs split have ok: "r \<noteq> - 1"
      and rest: "\<forall>r \<in> set (take (argc - Suc i) rs'). fst r \<noteq> - 1"
      and enough: "argc - Suc i \<le> length rs'"
      by simp_all
    have "add_watches argc argv (Suc i) (wd[i := r]) rs' out =
          (None, take (Suc i) (wd[i := r]) @ map fst (take (argc - Suc i) rs'), out)"
      using True "1.prems"(2) enough rest ok
      by (intro "1.IH" [OF True rs refl]) simp_all
    moreover have "take (Suc i) (wd[i := r]) = take i wd @ [r]"
      using True "1.prems"(2) by (simp add: take_Suc_conv_app_nth)
    ultimately show ?thesis
      using True ok rs split by (subst add_watches.simps) simp
  qed
qed

lemma add_watches_fail:
  "i + k < argc \<Longrightarrow> k < length rs \<Longrightarrow> fst (rs ! k) = - 1 \<Longrightarrow> \<forall>j<k. fst (rs ! j) \<noteq> - 1 \<Longrightarrow>
   fst (add_watches argc argv i wd rs out) = Some (Exit EXIT_FAILURE) \<and>
   snd (snd (add_watches argc argv i wd rs out)) =
     out @ [cannot_watch (argv ! (i + k)), Perror ''inotify_add_watch'' (snd (rs ! k))]"
proof (induction k arbitrary: i wd rs)
  case 0
  then obtain r errno rs' where rs: "rs = (r, errno) # rs'" by (cases rs) auto
  with 0 show ?case by (subst (1 2) add_watches.simps) (simp add: cannot_watch_def)
next
  case (Suc k)
  then obtain r errno rs' where rs: "rs = (r, errno) # rs'" by (cases rs) auto
  from Suc.prems(4) [rule_format, of 0] rs have ok: "r \<noteq> - 1" by simp
  have later: "\<forall>j<k. fst (rs' ! j) \<noteq> - 1"
  proof (intro allI impI)
    fix j assume "j < k"
    with Suc.prems(4) [rule_format, of "Suc j"] rs show "fst (rs' ! j) \<noteq> - 1" by simp
  qed
  from Suc.prems rs have "Suc i + k < argc" "k < length rs'" "fst (rs' ! k) = - 1" by simp_all
  from Suc.IH [OF this later, of "wd[i := r]"] Suc.prems(1) ok rs
  show ?case by (subst (1 2) add_watches.simps) simp
qed

lemma main_started:
  assumes "startup_ok argv w"
  shows "main argv w =
     after_loop (fst (init_reply w))
       (main_loop (fst (init_reply w)) (watch_table argv w) (length argv) argv (poll_replies w) (started w))"
proof -
  let ?argc = "length argv"
  from assms have argc: "2 \<le> ?argc" and fd: "fst (init_reply w) \<noteq> - 1" and mem: "calloc_reply w = None"
    and enough: "?argc - 1 \<le> length (watch_replies w)"
    and ok: "\<forall>r \<in> set (take (?argc - 1) (watch_replies w)). fst r \<noteq> - 1"
    by (simp_all add: startup_ok_def)
  have "add_watches ?argc argv 1 (replicate ?argc 0) (watch_replies w) [press_enter] =
          (None, take 1 (replicate ?argc 0) @ map fst (take (?argc - 1) (watch_replies w)), [press_enter])"
    using argc enough ok by (intro add_watches_ok) simp_all
  moreover have "take 1 (replicate ?argc (0 :: 32 word)) = [0]"
    using argc by (cases ?argc) simp_all
  ultimately have reg: "add_watches ?argc argv 1 (replicate ?argc 0) (watch_replies w) [press_enter] =
          (None, watch_table argv w, [press_enter])"
    by (simp add: watch_table_def)
  have not_lt: "\<not> ?argc < 2" using argc by simp
  show ?thesis
    unfolding main_def Let_def
    using not_lt fd mem reg
    by (simp add: press_enter_def listening_def started_def)
qed

lemma main_loop_retry:
  "poll_num p = - 1 \<Longrightarrow> poll_errno p = EINTR \<Longrightarrow>
   main_loop fd wd argc argv (p # ps) s = main_loop fd wd argc argv ps s"
  by (subst main_loop.simps) (simp only: if_True simp_thms)

lemma main_loop_interrupted:
  "\<forall>p \<in> set ps0. poll_num p = - 1 \<and> poll_errno p = EINTR \<Longrightarrow>
   main_loop fd wd argc argv (ps0 @ ps) s = main_loop fd wd argc argv ps s"
proof (induction ps0)
  case Nil
  show ?case by (simp only: append_Nil)
next
  case (Cons p ps0)
  from Cons.prems have p: "poll_num p = - 1" "poll_errno p = EINTR"
    and rest: "\<forall>p \<in> set ps0. poll_num p = - 1 \<and> poll_errno p = EINTR"
    by (simp_all only: list.set_intros ball_simps list.set insert_iff simp_thms) blast+
  have "main_loop fd wd argc argv ((p # ps0) @ ps) s = main_loop fd wd argc argv (p # (ps0 @ ps)) s"
    by (simp only: append_Cons)
  also have "\<dots> = main_loop fd wd argc argv (ps0 @ ps) s"
    by (rule main_loop_retry [OF p])
  also have "\<dots> = main_loop fd wd argc argv ps s"
    by (rule Cons.IH [OF rest])
  finally show ?case .
qed

lemma main_loop_poll_error:
  "poll_num p = - 1 \<Longrightarrow> poll_errno p \<noteq> EINTR \<Longrightarrow>
   main_loop fd wd argc argv (p # ps) s =
     (Some (Exit EXIT_FAILURE), s\<lparr>effects := effects s @ [Perror ''poll'' (poll_errno p)]\<rparr>)"
  by (subst main_loop.simps) (simp only: if_True if_False simp_thms)

lemma drain_stdin_line:
  "NL \<notin> set cs \<Longrightarrow> ends_input t \<Longrightarrow> drain_stdin (map Byte cs @ t # rest) = Some rest"
proof (induction cs)
  case Nil
  then show ?case by (cases t) simp_all
next
  case (Cons c cs)
  from Cons.prems have c: "c \<noteq> NL" and cs: "NL \<notin> set cs" by auto
  from Cons.IH [OF cs Cons.prems(2)] c show ?case by simp
qed

lemma main_loop_console:
  assumes "0 < poll_num p" and "revents0 p AND POLLIN \<noteq> 0" and "NL \<notin> set cs" and "ends_input t"
    and "stdin_in s = map Byte cs @ t # rest"
  shows "main_loop fd wd argc argv (p # ps) s = (None, s\<lparr>stdin_in := rest\<rparr>)"
proof -
  from assms(1) have "poll_num p \<noteq> - 1" by simp
  moreover have "drain_stdin (stdin_in s) = Some rest"
    using drain_stdin_line [OF assms(3,4), of rest] by (simp only: assms(5))
  ultimately show ?thesis
    using assms(1,2) by (subst main_loop.simps) (simp only: if_True if_False option.case simp_thms)
qed

lemma after_loop_simps:
  "after_loop fd (Some st, s) = (st, s)"
  "after_loop fd (None, s) =
     (Exit EXIT_SUCCESS, s\<lparr>effects := effects s @ [stopped, Close fd, Free]\<rparr>)"
  by (simp_all add: after_loop_def stopped_def)

lemma startup_ok_polls [simp]:
  "startup_ok argv (w\<lparr>poll_replies := ps\<rparr>) = startup_ok argv w"
  "watch_table argv (w\<lparr>poll_replies := ps\<rparr>) = watch_table argv w"
  "started (w\<lparr>poll_replies := ps\<rparr>) = started w"
  by (simp_all add: startup_ok_def watch_table_def started_def)

lemma main_polls_cong:
  assumes "\<And>fd wd s. main_loop fd wd (length argv) argv ps s = main_loop fd wd (length argv) argv ps' s"
  shows "main argv (w\<lparr>poll_replies := ps\<rparr>) = main argv (w\<lparr>poll_replies := ps'\<rparr>)"
  by (simp add: main_def Let_def assms cong: if_cong option.case_cong prod.case_cong list.case_cong)

lemma main_registration_fails:
  assumes "fst (init_reply w) \<noteq> - 1" and "calloc_reply w = None"
    and "k + 1 < length argv" and "k < length (watch_replies w)"
    and "fst (watch_replies w ! k) = - 1" and "\<forall>j<k. fst (watch_replies w ! j) \<noteq> - 1"
  shows "main argv w =
     (Exit EXIT_FAILURE,
      \<lparr>effects = [press_enter, cannot_watch (argv ! (k + 1)),
                  Perror ''inotify_add_watch'' (snd (watch_replies w ! k))],
       inotify_in = inotify_reads w, stdin_in = stdin_reads w\<rparr>)"
proof -
  let ?argc = "length argv"
  let ?reg = "add_watches ?argc argv 1 (replicate ?argc 0) (watch_replies w) [press_enter]"
  from assms(3) have k: "1 + k < ?argc" by simp
  from add_watches_fail [OF k assms(4,5,6), of argv "replicate ?argc 0" "[press_enter]"]
  have st: "fst ?reg = Some (Exit EXIT_FAILURE)"
    and out: "snd (snd ?reg) = [press_enter, cannot_watch (argv ! (k + 1)),
                  Perror ''inotify_add_watch'' (snd (watch_replies w ! k))]"
    by (simp_all add: add.commute)
  obtain wd where reg: "?reg = (Some (Exit EXIT_FAILURE), wd, [press_enter, cannot_watch (argv ! (k + 1)),
                  Perror ''inotify_add_watch'' (snd (watch_replies w ! k))])"
    using st out by (cases ?reg) simp
  have not_lt: "\<not> ?argc < 2" using assms(3) by simp
  show ?thesis
    unfolding main_def Let_def
    using not_lt assms(1,2) reg by (simp add: press_enter_def)
qed

lemma ex_startup_ok: "startup_ok ex_argv ex_world"
  by (simp add: startup_ok_def ex_argv_def ex_world_def)

text \<open>
  Claim C9. Replies of \<open>poll\<close> that fail with EINTR are skipped: the loop, and
  so the whole program, behaves as if they had not occurred, with no effect
  and no error. A reply that fails with any other \<open>errno\<close> ends the loop with
  \<^verbatim>\<open>perror("poll")\<close> and \<^verbatim>\<open>exit(EXIT_FAILURE)\<close>; after a successful start this is
  the result of the whole program.
\<close>

theorem interrupted_wait_is_retried:
  assumes "\<forall>p \<in> set interrupted. poll_num p = - 1 \<and> poll_errno p = EINTR"
  shows "main_loop fd wd argc argv (interrupted @ ps) s = main_loop fd wd argc argv ps s \<and>
         main argv (w\<lparr>poll_replies := interrupted @ ps\<rparr>) = main argv (w\<lparr>poll_replies := ps\<rparr>) \<and>
         (poll_num p = - 1 \<and> poll_errno p \<noteq> EINTR \<longrightarrow>
            main_loop fd wd argc argv (interrupted @ p # ps) s =
              (Some (Exit EXIT_FAILURE), s\<lparr>effects := effects s @ [Perror ''poll'' (poll_errno p)]\<rparr>) \<and>
            (startup_ok argv w \<longrightarrow>
               main argv (w\<lparr>poll_replies := interrupted @ p # ps\<rparr>) =
                 (Exit EXIT_FAILURE,
                  \<lparr>effects = [press_enter, listening, Perror ''poll'' (poll_errno p)],
                   inotify_in = inotify_reads w, stdin_in = stdin_reads w\<rparr>)))"
proof -
  have retry: "main_loop fd wd argc argv (interrupted @ ps) s = main_loop fd wd argc argv ps s"
    for fd wd argc argv ps s
    by (rule main_loop_interrupted [OF assms])
  have main_retry: "main argv (w\<lparr>poll_replies := interrupted @ ps\<rparr>) = main argv (w\<lparr>poll_replies := ps\<rparr>)"
    by (rule main_polls_cong) (rule retry)
  have fatal: "main_loop fd wd argc argv (interrupted @ p # ps) s =
              (Some (Exit EXIT_FAILURE), s\<lparr>effects := effects s @ [Perror ''poll'' (poll_errno p)]\<rparr>)"
    if "poll_num p = - 1" and "poll_errno p \<noteq> EINTR" for fd wd argc argv s
    by (simp only: retry main_loop_poll_error [OF that])
  have main_fatal: "main argv (w\<lparr>poll_replies := interrupted @ p # ps\<rparr>) =
                 (Exit EXIT_FAILURE,
                  \<lparr>effects = [press_enter, listening, Perror ''poll'' (poll_errno p)],
                   inotify_in = inotify_reads w, stdin_in = stdin_reads w\<rparr>)"
    if "poll_num p = - 1" and "poll_errno p \<noteq> EINTR" and ok: "startup_ok argv w"
  proof -
    from ok have "startup_ok argv (w\<lparr>poll_replies := interrupted @ p # ps\<rparr>)" by simp
    from main_started [OF this] show ?thesis
      by (simp add: fatal [OF that(1,2)] after_loop_simps started_def)
  qed
  from retry main_retry fatal main_fatal show ?thesis by blast
qed

theorem interrupted_wait_is_retried_witness:
  "poll_num ex_interrupted = - 1 \<and> poll_errno ex_interrupted = EINTR \<and>
   poll_num ex_poll_failed = - 1 \<and> poll_errno ex_poll_failed \<noteq> EINTR \<and>
   startup_ok ex_argv ex_world \<and>
   main ex_argv (ex_world\<lparr>poll_replies := [ex_interrupted, ex_interrupted] @ []\<rparr>) =
     main ex_argv (ex_world\<lparr>poll_replies := []\<rparr>) \<and>
   main ex_argv (ex_world\<lparr>poll_replies := [ex_interrupted, ex_interrupted] @ ex_poll_failed # []\<rparr>) =
     (Exit EXIT_FAILURE,
      \<lparr>effects = [press_enter, listening, Perror ''poll'' 12], inotify_in = [], stdin_in = []\<rparr>)"
proof -
  have i: "poll_num ex_interrupted = - 1 \<and> poll_errno ex_interrupted = EINTR"
    by (simp add: ex_interrupted_def EINTR_def)
  have f: "poll_num ex_poll_failed = - 1 \<and> poll_errno ex_poll_failed \<noteq> EINTR"
    by (simp add: ex_poll_failed_def EINTR_def)
  from i have all: "\<forall>p \<in> set [ex_interrupted, ex_interrupted]. poll_num p = - 1 \<and> poll_errno p = EINTR"
    by simp
  have reads: "inotify_reads ex_world = []" "stdin_reads ex_world = []" "poll_errno ex_poll_failed = 12"
    by (simp_all add: ex_world_def ex_poll_failed_def)
  from interrupted_wait_is_retried [OF all, of _ _ _ ex_argv "[]" _ ex_world ex_poll_failed]
    i f ex_startup_ok reads
  show ?thesis by (simp del: append.simps main_loop.simps)
qed

text \<open>
  Claim C4. When \<open>poll\<close> reports both the console and the inotify descriptor
  readable, the loop reads the console up to the first line break (or the end
  of the input, or an error) and leaves by \<^verbatim>\<open>break\<close>: no reply of the inotify
  descriptor is consumed and nothing is printed in that iteration, so
  \<^verbatim>\<open>handle_events\<close> is not called. When this happens at the first \<open>poll\<close> of a
  run, the program prints its last line, closes, frees and exits with success.
\<close>

theorem console_input_wins:
  assumes "0 < poll_num p" and "revents0 p AND POLLIN \<noteq> 0" and "revents1 p AND POLLIN \<noteq> 0"
    and "NL \<notin> set cs" and "ends_input t"
  shows "(stdin_in s = map Byte cs @ t # rest \<longrightarrow>
            main_loop fd wd argc argv (p # ps) s = (None, s\<lparr>stdin_in := rest\<rparr>)) \<and>
         (startup_ok argv w \<and> poll_replies w = p # ps \<and> stdin_reads w = map Byte cs @ t # rest \<longrightarrow>
            main argv w =
              (Exit EXIT_SUCCESS,
               \<lparr>effects = [press_enter, listening, stopped, Close (fst (init_reply w)), Free],
                inotify_in = inotify_reads w, stdin_in = rest\<rparr>))"
proof -
  have loop: "main_loop fd wd argc argv (p # ps) s = (None, s\<lparr>stdin_in := rest\<rparr>)"
    if "stdin_in s = map Byte cs @ t # rest" for fd wd argc argv s
    by (rule main_loop_console [OF assms(1,2,4,5) that])
  have whole: "main argv w =
              (Exit EXIT_SUCCESS,
               \<lparr>effects = [press_enter, listening, stopped, Close (fst (init_reply w)), Free],
                inotify_in = inotify_reads w, stdin_in = rest\<rparr>)"
    if ok: "startup_ok argv w" and polls: "poll_replies w = p # ps"
      and input: "stdin_reads w = map Byte cs @ t # rest"
  proof -
    have "stdin_in (started w) = map Byte cs @ t # rest"
      by (simp add: started_def input)
    from main_started [OF ok] loop [OF this] polls show ?thesis
      by (simp add: after_loop_simps started_def del: main_loop.simps)
  qed
  from loop whole show ?thesis by blast
qed

theorem console_input_wins_witness:
  "0 < poll_num ex_both_ready \<and> revents0 ex_both_ready AND POLLIN \<noteq> 0 \<and>
   revents1 ex_both_ready AND POLLIN \<noteq> 0 \<and> NL \<notin> set ''q'' \<and> ends_input (Byte NL) \<and>
   startup_ok ex_argv ex_world \<and>
   main ex_argv (ex_world\<lparr>poll_replies := [ex_both_ready],
                           inotify_reads := [RData ex_buf, RFail EAGAIN],
                           stdin_reads := [Byte CHR ''q'', Byte NL, Byte CHR ''z'']\<rparr>) =
     (Exit EXIT_SUCCESS,
      \<lparr>effects = [press_enter, listening, stopped, Close 3, Free],
       inotify_in = [RData ex_buf, RFail EAGAIN], stdin_in = [Byte CHR ''z'']\<rparr>)"
proof -
  let ?w = "ex_world\<lparr>poll_replies := [ex_both_ready],
                           inotify_reads := [RData ex_buf, RFail EAGAIN],
                           stdin_reads := [Byte CHR ''q'', Byte NL, Byte CHR ''z'']\<rparr>"
  have ready: "0 < poll_num ex_both_ready" "revents0 ex_both_ready AND POLLIN \<noteq> 0"
    "revents1 ex_both_ready AND POLLIN \<noteq> 0"
    by (simp_all add: ex_both_ready_def POLLIN_def)
  have line: "NL \<notin> set ''q''" "ends_input (Byte NL)" by simp_all
  have ok: "startup_ok ex_argv ?w"
    using ex_startup_ok by (simp add: startup_ok_def)
  have w: "poll_replies ?w = ex_both_ready # []"
    "stdin_reads ?w = map Byte ''q'' @ Byte NL # [Byte CHR ''z'']"
    "fst (init_reply ?w) = 3" "inotify_reads ?w = [RData ex_buf, RFail EAGAIN]"
    by (simp_all add: ex_world_def)
  from console_input_wins [OF ready line, where argv = ex_argv and w = ?w and ps = "[]"
      and rest = "[Byte CHR ''z'']"] ok w
  have "main ex_argv ?w = (Exit EXIT_SUCCESS,
      \<lparr>effects = [press_enter, listening, stopped, Close 3, Free],
       inotify_in = [RData ex_buf, RFail EAGAIN], stdin_in = [Byte CHR ''z'']\<rparr>)"
    by (simp del: main_loop.simps)
  with ready line ex_startup_ok show ?thesis by blast
qed

lemma handle_events_RData:
  "handle_events wd argc argv buf (RData d # rs) out =
     (if take sizeof_buf d = [] then (None, rs, out)
      else (case events_loop wd argc argv (take sizeof_buf d @ drop (length (take sizeof_buf d)) buf)
                   (length (take sizeof_buf d)) 0 of
              (its, Some st) \<Rightarrow> (Some st, rs, out @ map (\<lambda>it. Stdout (text_of it)) its)
            | (its, None) \<Rightarrow>
                handle_events wd argc argv (take sizeof_buf d @ drop (length (take sizeof_buf d)) buf) rs
                  (out @ map (\<lambda>it. Stdout (text_of it)) its)))"
  by (simp only: handle_events.simps Let_def nat_int of_nat_le_0_iff length_0_conv)

subsection \<open>What the loops add to the effects, and how they can stop\<close>

lemma events_loop_stop:
  "events_loop wd argc argv buf len ptr = (its, Some st) \<Longrightarrow> st = Undefined"
proof (induction wd argc argv buf len ptr arbitrary: its rule: events_loop.induct)
  case (1 wd argc argv buf len ptr)
  show ?case
  proof (cases "ptr < len")
    case False
    with "1.prems" show ?thesis by (simp add: events_loop_done)
  next
    case lt: True
    show ?thesis
    proof (cases "event_at buf ptr")
      case None
      with lt "1.prems" show ?thesis by (subst (asm) events_loop.simps) simp
    next
      case (Some ev)
      show ?thesis
      proof (cases "event_text wd argc argv buf ptr ev")
        case None
        with lt Some "1.prems" show ?thesis by (subst (asm) events_loop.simps) simp
      next
        case (Some t)
        let ?next = "ptr + sizeof_inotify_event + unat (ev_len ev)"
        obtain its' r' where rest: "events_loop wd argc argv buf len ?next = (its', r')"
          by (cases "events_loop wd argc argv buf len ?next")
        from lt \<open>event_at buf ptr = Some ev\<close> Some rest "1.prems"
        have "r' = Some st"
          by (simp add: events_loop_unfold)
        with rest "1.IH" [OF lt \<open>event_at buf ptr = Some ev\<close> Some] show ?thesis by simp
      qed
    qed
  qed
qed

lemma handle_events_cleanup:
  "handle_events wd argc argv buf rs out = (r, rs', out') \<Longrightarrow>
   filter is_cleanup out' = filter is_cleanup out \<and> r \<noteq> Some (Exit EXIT_SUCCESS)"
proof (induction wd argc argv buf rs out arbitrary: r rs' out' rule: handle_events.induct)
  case (1 wd argc argv buf out)
  then show ?case by auto
next
  case (2 wd argc argv buf errno rs out)
  then show ?case by (auto simp: Let_def split: if_splits)
next
  case (3 wd argc argv buf d rs out)
  let ?got = "take sizeof_buf d"
  let ?buf' = "?got @ drop (length ?got) buf"
  show ?case
  proof (cases "?got = []")
    case True
    with "3.prems" show ?thesis by (simp only: handle_events_RData if_True prod.inject simp_thms) auto
  next
    case False
    then have pos: "\<not> int (length ?got) \<le> 0" by simp
    obtain its st where loop: "events_loop wd argc argv ?buf' (length ?got) 0 = (its, st)"
      by (cases "events_loop wd argc argv ?buf' (length ?got) 0")
    then have loop': "(its, st) = events_loop wd argc argv ?buf' (nat (int (length ?got))) 0"
      by simp
    have lines: "filter is_cleanup (out @ map (\<lambda>it. Stdout (text_of it)) its) = filter is_cleanup out"
      by (induction its) simp_all
    show ?thesis
    proof (cases st)
      case (Some s)
      with False loop "3.prems" have "out' = out @ map (\<lambda>it. Stdout (text_of it)) its" "r = Some s"
        by (simp_all only: handle_events_RData if_False prod.case option.case prod.inject simp_thms)
      moreover from Some loop have "s = Undefined" by (simp add: events_loop_stop)
      ultimately show ?thesis using lines by simp
    next
      case None
      with False loop "3.prems"
      have "handle_events wd argc argv ?buf' rs (out @ map (\<lambda>it. Stdout (text_of it)) its) = (r, rs', out')"
        by (simp only: handle_events_RData if_False prod.case option.case simp_thms)
      from "3.IH" [OF refl refl refl pos loop' None this] lines
      show ?thesis by simp
    qed
  qed
qed

lemma add_watches_cleanup:
  "add_watches argc argv i wd rs out = (r, wd', out') \<Longrightarrow>
   filter is_cleanup out' = filter is_cleanup out \<and> r \<noteq> Some (Exit EXIT_SUCCESS)"
proof (induction argc argv i wd rs out arbitrary: r wd' out' rule: add_watches.induct)
  case (1 argc argv i wd rs out)
  show ?case
  proof (cases "i < argc")
    case False
    with "1.prems" show ?thesis by (subst (asm) add_watches.simps) simp
  next
    case True
    show ?thesis
    proof (cases rs)
      case Nil
      with True "1.prems" show ?thesis by (subst (asm) add_watches.simps) auto
    next
      case (Cons re rs')
      obtain rv errno where re: "re = (rv, errno)" by (cases re)
      show ?thesis
      proof (cases "rv = - 1")
        case failed: True
        with True Cons re "1.prems" show ?thesis
          by (subst (asm) add_watches.simps) auto
      next
        case ok: False
        with True Cons re "1.prems"
        have "add_watches argc argv (Suc i) (wd[i := rv]) rs' out = (r, wd', out')"
          by (subst (asm) add_watches.simps) simp
        then show ?thesis
          using True Cons re ok by (intro "1.IH" [of re rs' rv errno]) simp_all
      qed
    qed
  qed
qed

lemma main_loop_cleanup:
  "main_loop fd wd argc argv ps s = (r, s') \<Longrightarrow>
   filter is_cleanup (effects s') = filter is_cleanup (effects s) \<and> r \<noteq> Some (Exit EXIT_SUCCESS)"
proof (induction ps arbitrary: s r s')
  case Nil
  then show ?case by auto
next
  case (Cons p ps)
  show ?case
  proof (cases "poll_num p = - 1")
    case True
    show ?thesis
    proof (cases "poll_errno p = EINTR")
      case True
      with \<open>poll_num p = - 1\<close> Cons.prems have "main_loop fd wd argc argv ps s = (r, s')"
        by (simp only: main_loop_retry)
      then show ?thesis by (rule Cons.IH)
    next
      case False
      from main_loop_poll_error [OF \<open>poll_num p = - 1\<close> False, of fd wd argc argv ps s] Cons.prems
      have "s' = s\<lparr>effects := effects s @ [Perror ''poll'' (poll_errno p)]\<rparr>"
        and "r = Some (Exit EXIT_FAILURE)"
        by (simp_all del: main_loop.simps)
      then show ?thesis by simp
    qed
  next
    case no_error: False
    show ?thesis
    proof (cases "0 < poll_num p")
      case False
      with no_error Cons.prems have "main_loop fd wd argc argv ps s = (r, s')"
        by (subst (asm) main_loop.simps) (simp only: if_False)
      then show ?thesis by (rule Cons.IH)
    next
      case ready: True
      show ?thesis
      proof (cases "revents0 p AND POLLIN \<noteq> 0")
        case True
        with no_error ready Cons.prems show ?thesis
          by (subst (asm) main_loop.simps) (auto simp del: main_loop.simps split: option.splits)
      next
        case console: False
        show ?thesis
        proof (cases "revents1 p AND POLLIN \<noteq> 0")
          case False
          with no_error ready console Cons.prems have "main_loop fd wd argc argv ps s = (r, s')"
            by (subst (asm) main_loop.simps) (simp only: if_False if_True)
          then show ?thesis by (rule Cons.IH)
        next
          case True
          obtain st rs out where he: "handle_events wd argc argv [] (inotify_in s) (effects s) = (st, rs, out)"
            by (cases "handle_events wd argc argv [] (inotify_in s) (effects s)")
          from handle_events_cleanup [OF he]
          have out: "filter is_cleanup out = filter is_cleanup (effects s)"
            and st: "st \<noteq> Some (Exit EXIT_SUCCESS)"
            by simp_all
          show ?thesis
          proof (cases st)
            case (Some x)
            with no_error ready console True he Cons.prems
            have "s' = s\<lparr>effects := out, inotify_in := rs\<rparr> \<and> r = st"
              by (subst (asm) main_loop.simps) (simp del: main_loop.simps)
            with out st show ?thesis by simp
          next
            case None
            with no_error ready console True he Cons.prems
            have "main_loop fd wd argc argv ps (s\<lparr>effects := out, inotify_in := rs\<rparr>) = (r, s')"
              by (subst (asm) main_loop.simps) (simp del: main_loop.simps)
            from Cons.IH [OF this] out show ?thesis by simp
          qed
        qed
      qed
    qed
  qed
qed

subsection \<open>A path that cannot be watched\<close>

lemma ex_fail_main:
  "main ex_argv ex_fail_world =
     (Exit EXIT_FAILURE,
      \<lparr>effects = [press_enter, cannot_watch ''/tmp/'', Perror ''inotify_add_watch'' 2],
       inotify_in = [RData ex_buf, RFail EAGAIN], stdin_in = []\<rparr>)"
proof -
  have "main ex_argv ex_fail_world =
     (Exit EXIT_FAILURE,
      \<lparr>effects = [press_enter, cannot_watch (ex_argv ! (1 + 1)),
                  Perror ''inotify_add_watch'' (snd (watch_replies ex_fail_world ! 1))],
       inotify_in = inotify_reads ex_fail_world, stdin_in = stdin_reads ex_fail_world\<rparr>)"
    by (rule main_registration_fails)
       (simp_all add: ex_fail_world_def ex_world_def ex_argv_def less_Suc_eq)
  then show ?thesis
    by (simp add: ex_fail_world_def ex_world_def ex_argv_def)
qed

text \<open>
  Claim C6. When \<^verbatim>\<open>inotify_add_watch\<close> returns \<open>-1\<close> for one of the paths (the
  first such path being \<open>argv[k + 1]\<close>), whatever the replies for the paths after
  it, the program prints \<open>Cannot watch\<close> with that path and the error on
  \<open>stderr\<close>, and exits with EXIT_FAILURE. Its only other output is the first line
  of \<^verbatim>\<open>main\<close>: no event is printed, and nothing is read from the inotify
  descriptor or from the console.
\<close>

theorem registration_failure_aborts:
  assumes "fst (init_reply w) \<noteq> - 1" and "calloc_reply w = None"
    and "k + 1 < length argv" and "k < length (watch_replies w)"
    and "fst (watch_replies w ! k) = - 1" and "\<forall>j<k. fst (watch_replies w ! j) \<noteq> - 1"
  shows "main argv w =
     (Exit EXIT_FAILURE,
      \<lparr>effects = [press_enter, cannot_watch (argv ! (k + 1)),
                  Perror ''inotify_add_watch'' (snd (watch_replies w ! k))],
       inotify_in = inotify_reads w, stdin_in = stdin_reads w\<rparr>)"
  using assms by (rule main_registration_fails)

theorem registration_failure_aborts_witness:
  "fst (init_reply ex_fail_world) \<noteq> - 1 \<and> calloc_reply ex_fail_world = None \<and>
   1 + 1 < length ex_argv \<and> 1 < length (watch_replies ex_fail_world) \<and>
   fst (watch_replies ex_fail_world ! 1) = - 1 \<and>
   fst (watch_replies ex_fail_world ! 0) \<noteq> - 1 \<and> fst (watch_replies ex_fail_world ! 2) \<noteq> - 1 \<and>
   main ex_argv ex_fail_world =
     (Exit EXIT_FAILURE,
      \<lparr>effects = [press_enter, cannot_watch (ex_argv ! (1 + 1)),
                  Perror ''inotify_add_watch'' (snd (watch_replies ex_fail_world ! 1))],
       inotify_in = inotify_reads ex_fail_world, stdin_in = stdin_reads ex_fail_world\<rparr>) \<and>
   ex_argv ! (1 + 1) = ''/tmp/'' \<and> inotify_reads ex_fail_world = [RData ex_buf, RFail EAGAIN]"
proof -
  have h: "fst (init_reply ex_fail_world) \<noteq> - 1" "calloc_reply ex_fail_world = None"
    "1 + 1 < length ex_argv" "1 < length (watch_replies ex_fail_world)"
    "fst (watch_replies ex_fail_world ! 1) = - 1"
    "fst (watch_replies ex_fail_world ! 0) \<noteq> - 1" "fst (watch_replies ex_fail_world ! 2) \<noteq> - 1"
    "ex_argv ! (1 + 1) = ''/tmp/''" "inotify_reads ex_fail_world = [RData ex_buf, RFail EAGAIN]"
    by (simp_all add: ex_fail_world_def ex_world_def ex_argv_def)
  from h(6) have first: "\<forall>j<1. fst (watch_replies ex_fail_world ! j) \<noteq> - 1" by simp
  from registration_failure_aborts [OF h(1-5) first] h show ?thesis by blast
qed

subsection \<open>Cleanup\<close>

text \<open>
  Claim C5 says that every exit, the fatal ones too, closes the inotify
  descriptor and frees the table exactly once. In the run \<open>ex_fail_world\<close> the
  descriptor 3 has been opened and the table allocated, the program exits with
  EXIT_FAILURE, and it has called neither \<open>close\<close> nor \<open>free\<close>.
\<close>

theorem cleanup_on_every_exit_counterexample:
  "fst (main ex_argv ex_fail_world) = Exit EXIT_FAILURE \<and>
   fst (init_reply ex_fail_world) = 3 \<and>
   count_list (effects (snd (main ex_argv ex_fail_world))) (Close 3) = 0 \<and>
   count_list (effects (snd (main ex_argv ex_fail_world))) Free = 0"
proof -
  have "fst (init_reply ex_fail_world) = 3"
    by (simp add: ex_fail_world_def ex_world_def)
  then show ?thesis
    by (simp only: ex_fail_main fst_conv snd_conv proc.select_convs)
       (simp add: press_enter_def cannot_watch_def)
qed

text \<open>
  Claim C5, as the program has it. A run that exits with EXIT_SUCCESS ends with
  the last line of \<^verbatim>\<open>main\<close>, one \<open>close\<close> of the inotify descriptor and one
  \<open>free\<close>, in this order, and has no other \<open>close\<close> or \<open>free\<close>. A run that exits
  with EXIT_FAILURE has called neither.
\<close>

theorem cleanup_on_clean_shutdown_only:
  assumes "main argv w = (Exit st, s)"
  shows "(st = EXIT_SUCCESS \<longrightarrow>
            (\<exists>before. effects s = before @ [stopped, Close (fst (init_reply w)), Free] \<and>
                      filter is_cleanup before = [])) \<and>
         (st = EXIT_FAILURE \<longrightarrow> filter is_cleanup (effects s) = [])"
proof (cases "length argv < 2")
  case True
  with assms show ?thesis
    by (auto simp: main_def Let_def split: list.splits)
next
  case argc: False
  let ?fd = "fst (init_reply w)"
  let ?s0 = "\<lparr>effects = [], inotify_in = inotify_reads w, stdin_in = stdin_reads w\<rparr>"
  show ?thesis
  proof (cases "?fd = - 1")
    case True
    with argc assms show ?thesis by (auto simp: main_def Let_def)
  next
    case fd: False
    show ?thesis
    proof (cases "calloc_reply w")
      case (Some errno)
      with argc fd assms show ?thesis by (auto simp: main_def Let_def)
    next
      case None
      obtain r wd out2 where reg:
        "add_watches (length argv) argv 1 (replicate (length argv) 0) (watch_replies w) [press_enter]
           = (r, wd, out2)"
        by (cases "add_watches (length argv) argv 1 (replicate (length argv) 0) (watch_replies w) [press_enter]")
      from add_watches_cleanup [OF reg] have out2: "filter is_cleanup out2 = []"
        and r: "r \<noteq> Some (Exit EXIT_SUCCESS)"
        by (simp_all add: press_enter_def)
      show ?thesis
      proof (cases r)
        case (Some x)
        with argc fd None reg assms have "st = EXIT_FAILURE \<or> st = EXIT_SUCCESS" "effects s = out2"
          by (cases st; auto simp: main_def Let_def press_enter_def)+
        moreover have "st \<noteq> EXIT_SUCCESS"
        proof
          assume "st = EXIT_SUCCESS"
          with Some argc fd None reg assms have "r = Some (Exit EXIT_SUCCESS)"
            by (auto simp: main_def Let_def press_enter_def)
          moreover note r
          ultimately show False by simp
        qed
        ultimately show ?thesis using out2 by auto
      next
        case no_stop: None
        let ?s1 = "?s0\<lparr>effects := out2 @ [listening]\<rparr>"
        obtain r' s' where loop: "main_loop ?fd wd (length argv) argv (poll_replies w) ?s1 = (r', s')"
          by (cases "main_loop ?fd wd (length argv) argv (poll_replies w) ?s1")
        from main_loop_cleanup [OF loop] out2 have s': "filter is_cleanup (effects s') = []"
          and r': "r' \<noteq> Some (Exit EXIT_SUCCESS)"
          by (simp_all add: listening_def)
        from no_stop argc fd None reg loop assms
        have res: "after_loop ?fd (r', s') = (Exit st, s)"
          by (simp add: main_def Let_def press_enter_def listening_def)
        show ?thesis
        proof (cases r')
          case None
          with res have "st = EXIT_SUCCESS" "s = s'\<lparr>effects := effects s' @ [stopped, Close ?fd, Free]\<rparr>"
            by (simp_all add: after_loop_simps)
          then show ?thesis using s' by simp
        next
          case (Some x)
          with res have "x = Exit st" "s = s'" by (simp_all add: after_loop_simps)
          moreover from Some r' have "x \<noteq> Exit EXIT_SUCCESS" by simp
          ultimately show ?thesis using s' by auto
        qed
      qed
    qed
  qed
qed

lemma ex_clean_main:
  "main ex_argv ex_clean_world =
     (Exit EXIT_SUCCESS,
      \<lparr>effects = [press_enter, listening, stopped, Close 3, Free],
       inotify_in = [RData ex_buf, RFail EAGAIN], stdin_in = [Byte CHR ''z'']\<rparr>)"
proof -
  have ok: "startup_ok ex_argv ex_clean_world"
    using ex_startup_ok by (simp add: startup_ok_def ex_clean_world_def)
  have input: "stdin_in (started ex_clean_world) = map Byte ''q'' @ Byte NL # [Byte CHR ''z'']"
    by (simp add: started_def ex_clean_world_def)
  have ready: "0 < poll_num ex_both_ready" "revents0 ex_both_ready AND POLLIN \<noteq> 0"
    by (simp_all add: ex_both_ready_def POLLIN_def)
  have line: "NL \<notin> set ''q''" "ends_input (Byte NL)" by simp_all
  have polls: "poll_replies ex_clean_world = [ex_both_ready]"
    by (simp add: ex_clean_world_def)
  from main_started [OF ok] main_loop_console [OF ready line input]
  show ?thesis
    by (simp add: polls after_loop_simps started_def ex_clean_world_def ex_world_def
          del: main_loop.simps)
qed

theorem cleanup_on_clean_shutdown_only_witness:
  "main ex_argv ex_clean_world = (Exit EXIT_SUCCESS, snd (main ex_argv ex_clean_world)) \<and>
   (\<exists>before. effects (snd (main ex_argv ex_clean_world)) =
               before @ [stopped, Close (fst (init_reply ex_clean_world)), Free] \<and>
             filter is_cleanup before = []) \<and>
   main ex_argv ex_fail_world = (Exit EXIT_FAILURE, snd (main ex_argv ex_fail_world)) \<and>
   filter is_cleanup (effects (snd (main ex_argv ex_fail_world))) = []"
proof -
  have clean: "main ex_argv ex_clean_world = (Exit EXIT_SUCCESS, snd (main ex_argv ex_clean_world))"
    by (simp add: ex_clean_main)
  have fail: "main ex_argv ex_fail_world = (Exit EXIT_FAILURE, snd (main ex_argv ex_fail_world))"
    by (simp add: ex_fail_main)
  from cleanup_on_clean_shutdown_only [OF clean] cleanup_on_clean_shutdown_only [OF fail] clean fail
  show ?thesis by simp
qed

subsection \<open>The table of watch descriptors\<close>

lemma add_watches_table:
  assumes "1 \<le> argc" and "argc - 1 \<le> length rs" and "\<forall>r \<in> set (take (argc - 1) rs). fst r \<noteq> - 1"
  shows "add_watches argc argv 1 (replicate argc 0) rs out =
           (None, 0 # map fst (take (argc - 1) rs), out)"
proof -
  have "add_watches argc argv 1 (replicate argc 0) rs out =
          (None, take 1 (replicate argc 0) @ map fst (take (argc - 1) rs), out)"
    using assms by (intro add_watches_ok) simp_all
  moreover have "take 1 (replicate argc (0 :: 32 word)) = [0]"
    using assms(1) by (cases argc) simp_all
  ultimately show ?thesis by simp
qed

lemma first_match:
  assumes "1 \<le> i" and "i < argc"
  shows "\<exists>k. 1 \<le> k \<and> k \<le> i \<and> wd ! k = wd ! i \<and> (\<forall>j. 1 \<le> j \<and> j < k \<longrightarrow> wd ! j \<noteq> wd ! i) \<and>
             watched_dir wd argc argv (wd ! i) 1 = argv ! k @ ''/''"
proof -
  define k where "k = (LEAST k. 1 \<le> k \<and> wd ! k = wd ! i)"
  have i: "1 \<le> i \<and> wd ! i = wd ! i" using assms by simp
  from LeastI [of "\<lambda>k. 1 \<le> k \<and> wd ! k = wd ! i", OF i]
  have k: "1 \<le> k" "wd ! k = wd ! i" by (simp_all add: k_def)
  from Least_le [of "\<lambda>k. 1 \<le> k \<and> wd ! k = wd ! i", OF i] have le: "k \<le> i" by (simp add: k_def)
  have before: "wd ! j \<noteq> wd ! i" if "1 \<le> j" "j < k" for j
    using not_less_Least [of j "\<lambda>k. 1 \<le> k \<and> wd ! k = wd ! i"] that by (auto simp: k_def)
  have "watched_dir wd argc argv (wd ! i) 1 = argv ! k @ ''/''"
    using k le assms before by (intro watched_dir_first) simp_all
  with k le before show ?thesis by blast
qed

text \<open>
  Claim C3 says that the descriptor returned by a registration always resolves
  to the path of that registration. In \<open>ex_world\<close> the paths \<open>/tmp\<close> and \<open>/tmp/\<close>
  name one directory, and the kernel answers the second registration with the
  descriptor of the first. The descriptor returned for \<open>/tmp/\<close> resolves to
  \<open>/tmp\<close>, not to \<open>/tmp/\<close>.
\<close>

theorem resolve_registered_path_counterexample:
  "add_watches 4 ex_argv 1 (replicate 4 0) (watch_replies ex_world) [] = (None, ex_wd, []) \<and>
   ex_wd ! 2 = fst (watch_replies ex_world ! 1) \<and>
   watched_dir ex_wd 4 ex_argv (ex_wd ! 2) 1 = ex_argv ! 1 @ ''/'' \<and>
   watched_dir ex_wd 4 ex_argv (ex_wd ! 2) 1 \<noteq> ex_argv ! 2 @ ''/''"
proof -
  have "add_watches 4 ex_argv 1 (replicate 4 0) (watch_replies ex_world) [] =
          (None, 0 # map fst (take (4 - 1) (watch_replies ex_world)), [])"
    by (rule add_watches_table) (simp_all add: ex_world_def)
  then have reg: "add_watches 4 ex_argv 1 (replicate 4 0) (watch_replies ex_world) [] = (None, ex_wd, [])"
    by (simp add: ex_world_def ex_wd_def)
  have id: "ex_wd ! 2 = fst (watch_replies ex_world ! 1)" "ex_wd ! 2 = 1"
    by (simp_all add: ex_world_def ex_wd_def)
  have paths: "ex_argv ! 1 @ ''/'' = ''/tmp/''" "ex_argv ! 2 @ ''/'' = ''/tmp//''"
    by (simp_all add: ex_argv_def)
  from reg id paths ex_dir_1 show ?thesis by simp
qed

text \<open>
  Claim C3, as the program has it. After a start in which every registration
  succeeds, entry \<open>i\<close> of the table is the descriptor returned for \<open>argv[i]\<close>,
  and this descriptor resolves to the path of the first registration that
  returned it. So it resolves to exactly \<open>argv[i]\<close> whenever no earlier
  registration returned the same descriptor, in particular when all
  descriptors differ; and it never resolves to the path of a registration
  that returned a different descriptor, in whatever order the paths are given.
\<close>

theorem resolve_first_registration:
  assumes "argc = length argv" and "argc - 1 \<le> length rs"
    and "\<forall>r \<in> set (take (argc - 1) rs). fst r \<noteq> - 1"
    and "1 \<le> i" and "i < argc"
  shows "\<exists>wd. add_watches argc argv 1 (replicate argc 0) rs out = (None, wd, out) \<and>
              wd ! i = fst (rs ! (i - 1)) \<and>
              (\<exists>k. 1 \<le> k \<and> k \<le> i \<and> fst (rs ! (k - 1)) = fst (rs ! (i - 1)) \<and>
                   (\<forall>j. 1 \<le> j \<and> j < k \<longrightarrow> fst (rs ! (j - 1)) \<noteq> fst (rs ! (i - 1))) \<and>
                   watched_dir wd argc argv (fst (rs ! (i - 1))) 1 = argv ! k @ ''/'') \<and>
              ((\<forall>j. 1 \<le> j \<and> j < i \<longrightarrow> fst (rs ! (j - 1)) \<noteq> fst (rs ! (i - 1))) \<longrightarrow>
                   watched_dir wd argc argv (fst (rs ! (i - 1))) 1 = argv ! i @ ''/'')"
proof -
  let ?wd = "0 # map fst (take (argc - 1) rs)"
  from assms have reg: "add_watches argc argv 1 (replicate argc 0) rs out = (None, ?wd, out)"
    by (intro add_watches_table) simp_all
  have entry: "?wd ! j = fst (rs ! (j - 1))" if "1 \<le> j" "j < argc" for j
    using that assms(2) by (cases j) simp_all
  from first_match [OF assms(4,5), of ?wd argv] obtain k where
    k: "1 \<le> k" "k \<le> i" "?wd ! k = ?wd ! i" and
    before: "\<And>j. 1 \<le> j \<Longrightarrow> j < k \<Longrightarrow> ?wd ! j \<noteq> ?wd ! i" and
    dir: "watched_dir ?wd argc argv (?wd ! i) 1 = argv ! k @ ''/''"
    by blast
  from k assms(5) have k_lt: "k < argc" by simp
  have i_entry: "?wd ! i = fst (rs ! (i - 1))"
    by (rule entry [OF assms(4,5)])
  have k_eq: "fst (rs ! (k - 1)) = fst (rs ! (i - 1))"
    using k(3) entry [OF k(1) k_lt] i_entry by simp
  have k_first: "fst (rs ! (j - 1)) \<noteq> fst (rs ! (i - 1))" if "1 \<le> j" "j < k" for j
  proof -
    from that k_lt have "j < argc" by simp
    from before [OF that] entry [OF that(1) this] i_entry show ?thesis by simp
  qed
  have dir': "watched_dir ?wd argc argv (fst (rs ! (i - 1))) 1 = argv ! k @ ''/''"
    using dir i_entry by simp
  have exact: "watched_dir ?wd argc argv (fst (rs ! (i - 1))) 1 = argv ! i @ ''/''"
    if "\<forall>j. 1 \<le> j \<and> j < i \<longrightarrow> fst (rs ! (j - 1)) \<noteq> fst (rs ! (i - 1))"
  proof -
    have "k = i"
    proof (rule ccontr)
      assume "k \<noteq> i"
      with k(2) have "k < i" by simp
      with that k(1) k_eq show False by blast
    qed
    with dir' show ?thesis by simp
  qed
  from reg i_entry k(1,2) k_eq k_first dir' exact show ?thesis by blast
qed

theorem resolve_first_registration_witness:
  "4 = length ex_argv \<and> 4 - 1 \<le> length (watch_replies ex_world) \<and>
   fst (watch_replies ex_world ! 0) \<noteq> - 1 \<and> fst (watch_replies ex_world ! 1) \<noteq> - 1 \<and>
   fst (watch_replies ex_world ! 2) \<noteq> - 1 \<and>
   fst (watch_replies ex_world ! 0) \<noteq> fst (watch_replies ex_world ! 2) \<and>
   fst (watch_replies ex_world ! 1) \<noteq> fst (watch_replies ex_world ! 2) \<and>
   (\<exists>wd. add_watches 4 ex_argv 1 (replicate 4 0) (watch_replies ex_world) [] = (None, wd, []) \<and>
         wd ! 3 = fst (watch_replies ex_world ! (3 - 1)) \<and>
         watched_dir wd 4 ex_argv (fst (watch_replies ex_world ! (3 - 1))) 1 = ex_argv ! 3 @ ''/'')"
proof -
  let ?rs = "watch_replies ex_world"
  have h: "4 = length ex_argv" "4 - 1 \<le> length ?rs"
    "fst (?rs ! 0) \<noteq> - 1" "fst (?rs ! 1) \<noteq> - 1" "fst (?rs ! 2) \<noteq> - 1"
    "fst (?rs ! 0) \<noteq> fst (?rs ! 2)" "fst (?rs ! 1) \<noteq> fst (?rs ! 2)"
    by (simp_all add: ex_argv_def ex_world_def)
  have ok: "\<forall>r \<in> set (take (4 - 1) ?rs). fst r \<noteq> - 1"
    by (simp add: ex_world_def)
  have fresh: "\<forall>j. 1 \<le> j \<and> j < 3 \<longrightarrow> fst (?rs ! (j - 1)) \<noteq> fst (?rs ! (3 - 1))"
  proof (intro allI impI)
    fix j :: nat assume "1 \<le> j \<and> j < 3"
    then have "j = 1 \<or> j = 2" by arith
    then show "fst (?rs ! (j - 1)) \<noteq> fst (?rs ! (3 - 1))"
      using h(6,7) by auto
  qed
  from resolve_first_registration [OF h(1,2) ok, of 3 "[]"] fresh
  have "\<exists>wd. add_watches 4 ex_argv 1 (replicate 4 0) ?rs [] = (None, wd, []) \<and>
         wd ! 3 = fst (?rs ! (3 - 1)) \<and>
         watched_dir wd 4 ex_argv (fst (?rs ! (3 - 1))) 1 = ex_argv ! 3 @ ''/''"
    by auto
  with h show ?thesis by blast
qed

section \<open>One text for every record\<close>

lemma events_loop_encode_texts:
  assumes "\<forall>r \<in> set recs. well_formed r"
  shows "\<exists>its. events_loop wd argc argv (pre @ encode_events recs @ stale)
                 (length pre + length (encode_events recs)) (length pre) = (its, None) \<and>
               map event its = map fst recs \<and>
               map text_of its =
                 map (\<lambda>r. kind_tags (ev_mask (fst r)) @ watched_dir wd argc argv (ev_wd (fst r)) 1 @
                          record_name r @ object_kind (ev_mask (fst r))) recs"
  using assms
proof (induction recs arbitrary: pre)
  case Nil
  then show ?case by (simp add: encode_events_def events_loop_done)
next
  case (Cons r rs)
  obtain ev nm where r: "r = (ev, nm)" by (cases r)
  from Cons.prems r have wf: "well_formed (ev, nm)" and wfs: "\<forall>r \<in> set rs. well_formed r"
    by simp_all
  let ?pre' = "pre @ encode_event ev nm"
  let ?buf = "pre @ encode_events (r # rs) @ stale"
  let ?len = "length pre + length (encode_events (r # rs))"
  let ?t = "kind_tags (ev_mask ev) @ watched_dir wd argc argv (ev_wd ev) 1 @
            record_name (ev, nm) @ object_kind (ev_mask ev)"
  have buf: "?buf = pre @ encode_event ev nm @ (encode_events rs @ stale)"
    by (simp add: r encode_events_Cons)
  have buf': "?buf = ?pre' @ encode_events rs @ stale"
    by (simp add: r encode_events_Cons)
  have len': "?len = length ?pre' + length (encode_events rs)"
    by (simp add: r encode_events_Cons)
  have "length nm = unat (ev_len ev)"
    using wf by (simp add: well_formed_def)
  then have next_ptr: "length pre + sizeof_inotify_event + unat (ev_len ev) = length ?pre'"
    by (simp add: length_encode_event)
  have lt: "length pre < ?len"
    by (simp add: r encode_events_Cons length_encode_event sizeof_inotify_event_def)
  have ev: "event_at ?buf (length pre) = Some ev"
    unfolding buf by (rule event_at_encode)
  have t: "event_text wd argc argv ?buf (length pre) ev = Some ?t"
    unfolding buf using event_text_encode [OF wf, of wd argc argv pre "encode_events rs @ stale"]
    by (simp add: record_name_def)
  from Cons.IH [OF wfs, of ?pre'] obtain its' where
    loop': "events_loop wd argc argv (?pre' @ encode_events rs @ stale)
              (length ?pre' + length (encode_events rs)) (length ?pre') = (its', None)" and
    evs': "map event its' = map fst rs" and
    texts': "map text_of its' =
             map (\<lambda>r. kind_tags (ev_mask (fst r)) @ watched_dir wd argc argv (ev_wd (fst r)) 1 @
                      record_name r @ object_kind (ev_mask (fst r))) rs"
    by blast
  let ?it = "\<lparr>cursor = length pre, event = ev, text_of = ?t\<rparr>"
  have rest: "events_loop wd argc argv ?buf ?len (length ?pre') = (its', None)"
    using loop' by (simp only: buf' len')
  have loop: "events_loop wd argc argv ?buf ?len (length pre) = (?it # its', None)"
    by (simp only: events_loop_unfold [OF lt ev t] next_ptr rest fst_conv snd_conv)
  have evs: "map event (?it # its') = map fst (r # rs)"
    using evs' by (simp add: r)
  have texts: "map text_of (?it # its') =
             map (\<lambda>r. kind_tags (ev_mask (fst r)) @ watched_dir wd argc argv (ev_wd (fst r)) 1 @
                      record_name r @ object_kind (ev_mask (fst r))) (r # rs)"
    using texts' by (simp add: r)
  from loop evs texts show ?case by blast
qed

lemma one_line_break:
  assumes "NL \<notin> set dir" and "NL \<notin> set nm"
  shows "count_list (kind_tags m @ dir @ nm @ object_kind m) NL = 1 \<and>
         last (kind_tags m @ dir @ nm @ object_kind m) = NL"
proof -
  from assms have "count_list dir NL = 0" and "count_list nm NL = 0"
    by (simp_all only: count_list_0_iff not_False_eq_True)
  moreover have "count_list (kind_tags m) NL = 0"
    by (simp add: kind_tags_def)
  ultimately show ?thesis
    by (simp add: object_kind_def del: count_list_0_iff)
qed

text \<open>
  Claim C8 says that every record gives exactly one output line. The record
  \<open>ex_nl_rec\<close> is well formed, has none of the five tracked bits, and its name
  holds a line break. The loop prints one text for it, and this text holds two
  line breaks: it is two lines of output.
\<close>

theorem one_output_line_counterexample:
  "well_formed ex_nl_rec \<and>
   events_loop ex_wd 4 ex_argv (encode_events [ex_nl_rec]) (length (encode_events [ex_nl_rec])) 0 =
     ([\<lparr>cursor = 0, event = fst ex_nl_rec,
        text_of = ''/tmp/a'' @ [NL] @ ''b [file]'' @ [NL]\<rparr>], None) \<and>
   count_list (''/tmp/a'' @ [NL] @ ''b [file]'' @ [NL]) NL = 2"
proof -
  let ?ev = "fst ex_nl_rec" and ?nm = "snd ex_nl_rec"
  let ?buf = "encode_event ?ev ?nm"
  have wf: "well_formed ex_nl_rec"
    by (simp add: well_formed_def ex_nl_rec_def)
  then have wf': "well_formed (?ev, ?nm)" by simp
  have buf: "encode_events [ex_nl_rec] = ?buf"
    by (simp add: encode_events_def)
  have len: "length ?buf = 20"
    by (simp add: length_encode_event sizeof_inotify_event_def ex_nl_rec_def)
  have ev: "event_at ?buf 0 = Some ?ev"
    using event_at_encode [of "[]" ?ev ?nm "[]"] by simp
  have "event_text ex_wd 4 ex_argv ?buf 0 ?ev =
          Some (kind_tags (ev_mask ?ev) @ watched_dir ex_wd 4 ex_argv (ev_wd ?ev) 1 @
                (if ev_len ?ev = 0 then [] else takeWhile (\<lambda>c. c \<noteq> NUL) ?nm) @
                object_kind (ev_mask ?ev))"
    using event_text_encode [OF wf', of ex_wd 4 ex_argv "[]" "[]"] by simp
  then have t: "event_text ex_wd 4 ex_argv ?buf 0 ?ev = Some (''/tmp/a'' @ [NL] @ ''b [file]'' @ [NL])"
    by (simp add: ex_nl_rec_def kind_tags_def object_kind_def ex_dir_1)
  have lt: "(0::nat) < 20" by simp
  have finished: "events_loop ex_wd 4 ex_argv ?buf 20 20 = ([], None)"
    by (simp add: events_loop_done)
  have step: "0 + sizeof_inotify_event + unat (ev_len ?ev) = 20"
    by (simp add: sizeof_inotify_event_def ex_nl_rec_def)
  have loop: "events_loop ex_wd 4 ex_argv ?buf 20 0 =
      ([\<lparr>cursor = 0, event = ?ev, text_of = ''/tmp/a'' @ [NL] @ ''b [file]'' @ [NL]\<rparr>], None)"
    by (simp only: events_loop_unfold [OF lt ev t] step finished fst_conv snd_conv)
  have two: "count_list (''/tmp/a'' @ [NL] @ ''b [file]'' @ [NL]) NL = 2"
    by simp
  from wf loop two show ?thesis by (simp only: buf len simp_thms)
qed

text \<open>
  Claim C8, as the program has it. On a buffer of well-formed records the event
  loop prints one text for each record, in order, whatever its mask: the kind
  tags, the watched directory, the name up to its first NUL, and then
  \<open>[directory]\<close> or \<open>[file]\<close>, chosen by the bit IN_ISDIR, and a line break. When
  none of the five tracked bits is set the text has no kind tags and is
  printed all the same. The text is exactly one line, ending in its only line
  break, whenever neither the directory nor the name holds a line break; they
  are printed as they are.
\<close>

theorem every_record_one_text:
  assumes "\<forall>r \<in> set recs. well_formed r"
  shows "\<exists>its. events_loop wd argc argv (encode_events recs @ stale) (length (encode_events recs)) 0
                 = (its, None) \<and>
               length its = length recs \<and>
               (\<forall>k. k < length recs \<longrightarrow>
                  event (its ! k) = fst (recs ! k) \<and>
                  text_of (its ! k) =
                    kind_tags (ev_mask (fst (recs ! k))) @
                    watched_dir wd argc argv (ev_wd (fst (recs ! k))) 1 @
                    record_name (recs ! k) @
                    (if ev_mask (fst (recs ! k)) AND IN_ISDIR \<noteq> 0 then '' [directory]'' @ [NL]
                     else '' [file]'' @ [NL]) \<and>
                  (ev_mask (fst (recs ! k)) AND IN_OPEN = 0 \<and>
                   ev_mask (fst (recs ! k)) AND IN_CLOSE_NOWRITE = 0 \<and>
                   ev_mask (fst (recs ! k)) AND IN_CLOSE_WRITE = 0 \<and>
                   ev_mask (fst (recs ! k)) AND IN_MOVED_FROM = 0 \<and>
                   ev_mask (fst (recs ! k)) AND IN_MOVED_TO = 0 \<longrightarrow>
                     text_of (its ! k) =
                       watched_dir wd argc argv (ev_wd (fst (recs ! k))) 1 @
                       record_name (recs ! k) @
                       (if ev_mask (fst (recs ! k)) AND IN_ISDIR \<noteq> 0 then '' [directory]'' @ [NL]
                        else '' [file]'' @ [NL])) \<and>
                  (NL \<notin> set (watched_dir wd argc argv (ev_wd (fst (recs ! k))) 1) \<and>
                   NL \<notin> set (record_name (recs ! k)) \<longrightarrow>
                     count_list (text_of (its ! k)) NL = 1 \<and> last (text_of (its ! k)) = NL))"
proof -
  let ?text = "\<lambda>r. kind_tags (ev_mask (fst r)) @ watched_dir wd argc argv (ev_wd (fst r)) 1 @
                   record_name r @ object_kind (ev_mask (fst r))"
  from events_loop_encode_texts [OF assms, of wd argc argv "[]" stale] obtain its where
    loop: "events_loop wd argc argv (encode_events recs @ stale) (length (encode_events recs)) 0
             = (its, None)" and
    evs: "map event its = map fst recs" and
    texts: "map text_of its = map ?text recs"
    by auto
  have "length (map event its) = length (map fst recs)" by (simp only: evs)
  then have len: "length its = length recs" by simp
  have each: "event (its ! k) = fst (recs ! k) \<and> text_of (its ! k) = ?text (recs ! k)"
    if "k < length recs" for k
  proof -
    from that len have k: "k < length its" by simp
    have "event (its ! k) = map event its ! k" using k by simp
    also have "\<dots> = fst (recs ! k)" using that by (simp only: evs) simp
    finally have e: "event (its ! k) = fst (recs ! k)" .
    have "text_of (its ! k) = map text_of its ! k" using k by simp
    also have "\<dots> = ?text (recs ! k)" using that by (simp only: texts) simp
    finally show ?thesis using e by simp
  qed
  have facts: "event (its ! k) = fst (recs ! k) \<and>
      text_of (its ! k) =
        kind_tags (ev_mask (fst (recs ! k))) @
        watched_dir wd argc argv (ev_wd (fst (recs ! k))) 1 @
        record_name (recs ! k) @
        (if ev_mask (fst (recs ! k)) AND IN_ISDIR \<noteq> 0 then '' [directory]'' @ [NL]
         else '' [file]'' @ [NL]) \<and>
      (ev_mask (fst (recs ! k)) AND IN_OPEN = 0 \<and>
       ev_mask (fst (recs ! k)) AND IN_CLOSE_NOWRITE = 0 \<and>
       ev_mask (fst (recs ! k)) AND IN_CLOSE_WRITE = 0 \<and>
       ev_mask (fst (recs ! k)) AND IN_MOVED_FROM = 0 \<and>
       ev_mask (fst (recs ! k)) AND IN_MOVED_TO = 0 \<longrightarrow>
         text_of (its ! k) =
           watched_dir wd argc argv (ev_wd (fst (recs ! k))) 1 @
           record_name (recs ! k) @
           (if ev_mask (fst (recs ! k)) AND IN_ISDIR \<noteq> 0 then '' [directory]'' @ [NL]
            else '' [file]'' @ [NL])) \<and>
      (NL \<notin> set (watched_dir wd argc argv (ev_wd (fst (recs ! k))) 1) \<and>
       NL \<notin> set (record_name (recs ! k)) \<longrightarrow>
         count_list (text_of (its ! k)) NL = 1 \<and> last (text_of (its ! k)) = NL)"
    if "k < length recs" for k
  proof -
    let ?m = "ev_mask (fst (recs ! k))"
    let ?dir = "watched_dir wd argc argv (ev_wd (fst (recs ! k))) 1"
    let ?nm = "record_name (recs ! k)"
    from each [OF that] have e: "event (its ! k) = fst (recs ! k)"
      and t: "text_of (its ! k) = kind_tags ?m @ ?dir @ ?nm @ object_kind ?m"
      by simp_all
    have t': "text_of (its ! k) = kind_tags ?m @ ?dir @ ?nm @
        (if ?m AND IN_ISDIR \<noteq> 0 then '' [directory]'' @ [NL] else '' [file]'' @ [NL])"
      by (simp only: t object_kind_def)
    have empty: "kind_tags ?m = []"
      if "?m AND IN_OPEN = 0 \<and> ?m AND IN_CLOSE_NOWRITE = 0 \<and> ?m AND IN_CLOSE_WRITE = 0 \<and>
          ?m AND IN_MOVED_FROM = 0 \<and> ?m AND IN_MOVED_TO = 0"
      using that by (simp add: kind_tags_def)
    have bare: "text_of (its ! k) = ?dir @ ?nm @
        (if ?m AND IN_ISDIR \<noteq> 0 then '' [directory]'' @ [NL] else '' [file]'' @ [NL])"
      if "?m AND IN_OPEN = 0 \<and> ?m AND IN_CLOSE_NOWRITE = 0 \<and> ?m AND IN_CLOSE_WRITE = 0 \<and>
          ?m AND IN_MOVED_FROM = 0 \<and> ?m AND IN_MOVED_TO = 0"
      using empty [OF that] by (simp only: t' append_Nil)
    have one: "count_list (text_of (its ! k)) NL = 1 \<and> last (text_of (its ! k)) = NL"
      if "NL \<notin> set ?dir \<and> NL \<notin> set ?nm"
      using one_line_break [of ?dir ?nm ?m] that by (simp only: t) simp
    from e t' bare one show ?thesis by blast
  qed
  from loop len facts show ?thesis by blast
qed

theorem every_record_one_text_witness:
  "well_formed (ex_recs ! 0) \<and> well_formed (ex_recs ! 1) \<and>
   ev_mask (fst (ex_recs ! 1)) AND IN_OPEN = 0 \<and>
   ev_mask (fst (ex_recs ! 1)) AND IN_CLOSE_NOWRITE = 0 \<and>
   ev_mask (fst (ex_recs ! 1)) AND IN_CLOSE_WRITE = 0 \<and>
   ev_mask (fst (ex_recs ! 1)) AND IN_MOVED_FROM = 0 \<and>
   ev_mask (fst (ex_recs ! 1)) AND IN_MOVED_TO = 0 \<and>
   NL \<notin> set (watched_dir ex_wd 4 ex_argv (ev_wd (fst (ex_recs ! 1))) 1) \<and>
   NL \<notin> set (record_name (ex_recs ! 1)) \<and>
   (\<exists>its. events_loop ex_wd 4 ex_argv (encode_events ex_recs @ []) (length (encode_events ex_recs)) 0
            = (its, None) \<and>
          length its = 2 \<and>
          text_of (its ! 0) = ''IN_OPEN: IN_MOVED_FROM: /tmp/x.txt [file]'' @ [NL] \<and>
          text_of (its ! 1) = ''d [directory]'' @ [NL] \<and>
          count_list (text_of (its ! 1)) NL = 1 \<and> last (text_of (its ! 1)) = NL)"
proof -
  have wf: "well_formed (ex_recs ! 0) \<and> well_formed (ex_recs ! 1)"
    by (simp add: ex_recs_def well_formed_def)
  have set: "set ex_recs = {ex_recs ! 0, ex_recs ! 1}" and n: "length ex_recs = 2"
    by (simp_all add: ex_recs_def)
  from wf set have all: "\<forall>r \<in> set ex_recs. well_formed r" by simp
  have bits: "ev_mask (fst (ex_recs ! 1)) AND IN_OPEN = 0 \<and>
      ev_mask (fst (ex_recs ! 1)) AND IN_CLOSE_NOWRITE = 0 \<and>
      ev_mask (fst (ex_recs ! 1)) AND IN_CLOSE_WRITE = 0 \<and>
      ev_mask (fst (ex_recs ! 1)) AND IN_MOVED_FROM = 0 \<and>
      ev_mask (fst (ex_recs ! 1)) AND IN_MOVED_TO = 0"
    by (simp add: ex_recs_def mask_defs)
  have r1: "watched_dir ex_wd 4 ex_argv (ev_wd (fst (ex_recs ! Suc 0))) (Suc 0) = []"
    "record_name (ex_recs ! Suc 0) = ''d''"
    "ev_mask (fst (ex_recs ! Suc 0)) AND IN_ISDIR \<noteq> 0"
    "kind_tags (ev_mask (fst (ex_recs ! Suc 0))) = []"
    using ex_dir_7 by (simp_all add: ex_recs_def record_name_def kind_tags_def mask_defs)
  have r0: "watched_dir ex_wd 4 ex_argv (ev_wd (fst (ex_recs ! 0))) (Suc 0) = ''/tmp/''"
    "record_name (ex_recs ! 0) = ''x.txt''"
    "\<not> ev_mask (fst (ex_recs ! 0)) AND IN_ISDIR \<noteq> 0"
    "kind_tags (ev_mask (fst (ex_recs ! 0))) = ''IN_OPEN: IN_MOVED_FROM: ''"
    using ex_dir_1 by (simp_all add: ex_recs_def record_name_def kind_tags_def mask_defs)
  have clean: "NL \<notin> set (watched_dir ex_wd 4 ex_argv (ev_wd (fst (ex_recs ! 1))) 1) \<and>
      NL \<notin> set (record_name (ex_recs ! 1))"
    using r1 by simp
  from every_record_one_text [OF all, of ex_wd 4 ex_argv "[]"] obtain its where
    loop: "events_loop ex_wd 4 ex_argv (encode_events ex_recs @ []) (length (encode_events ex_recs)) 0
            = (its, None)" and
    len: "length its = length ex_recs" and
    each: "\<And>k. k < length ex_recs \<Longrightarrow>
       text_of (its ! k) =
         kind_tags (ev_mask (fst (ex_recs ! k))) @
         watched_dir ex_wd 4 ex_argv (ev_wd (fst (ex_recs ! k))) 1 @
         record_name (ex_recs ! k) @
         (if ev_mask (fst (ex_recs ! k)) AND IN_ISDIR \<noteq> 0 then '' [directory]'' @ [NL]
          else '' [file]'' @ [NL]) \<and>
       (ev_mask (fst (ex_recs ! k)) AND IN_OPEN = 0 \<and>
        ev_mask (fst (ex_recs ! k)) AND IN_CLOSE_NOWRITE = 0 \<and>
        ev_mask (fst (ex_recs ! k)) AND IN_CLOSE_WRITE = 0 \<and>
        ev_mask (fst (ex_recs ! k)) AND IN_MOVED_FROM = 0 \<and>
        ev_mask (fst (ex_recs ! k)) AND IN_MOVED_TO = 0 \<longrightarrow>
          text_of (its ! k) =
            watched_dir ex_wd 4 ex_argv (ev_wd (fst (ex_recs ! k))) 1 @
            record_name (ex_recs ! k) @
            (if ev_mask (fst (ex_recs ! k)) AND IN_ISDIR \<noteq> 0 then '' [directory]'' @ [NL]
             else '' [file]'' @ [NL])) \<and>
       (NL \<notin> set (watched_dir ex_wd 4 ex_argv (ev_wd (fst (ex_recs ! k))) 1) \<and>
        NL \<notin> set (record_name (ex_recs ! k)) \<longrightarrow>
          count_list (text_of (its ! k)) NL = 1 \<and> last (text_of (its ! k)) = NL)"
    by blast
  have k0: "(0::nat) < length ex_recs" and k1: "(1::nat) < length ex_recs"
    by (simp_all add: n)
  from each [OF k0] have t0: "text_of (its ! 0) = ''IN_OPEN: IN_MOVED_FROM: /tmp/x.txt [file]'' @ [NL]"
    by (simp add: r0)
  from each [OF k1] bits have t1: "text_of (its ! 1) = ''d [directory]'' @ [NL]"
    by (simp add: r1)
  from each [OF k1] clean have one: "count_list (text_of (its ! 1)) NL = 1 \<and> last (text_of (its ! 1)) = NL"
    by blast
  from len n have len2: "length its = 2" by simp
  have "\<exists>its. events_loop ex_wd 4 ex_argv (encode_events ex_recs @ []) (length (encode_events ex_recs)) 0
            = (its, None) \<and>
          length its = 2 \<and>
          text_of (its ! 0) = ''IN_OPEN: IN_MOVED_FROM: /tmp/x.txt [file]'' @ [NL] \<and>
          text_of (its ! 1) = ''d [directory]'' @ [NL] \<and>
          count_list (text_of (its ! 1)) NL = 1 \<and> last (text_of (its ! 1)) = NL"
    using loop len2 t0 t1 one by (intro exI [of _ its] conjI) simp_all
  with wf bits clean show ?thesis by blast
qed

end
